theory Spec2Isabelle
  imports Main
begin

section \<open>Memory slots, element type and environment\<close>

text \<open>
  A block of raw storage is a list of slots. A slot is either uninitialised raw memory
  or holds a live, constructed object of the element type \<open>T\<close>.
\<close>

datatype 'a slot = Raw | Live 'a

text \<open>
  The class \<open>RawMemory<T>\<close> has the members \<open>buffer_\<close> and \<open>capacity_\<close>; the
  pointer \<open>buffer_\<close> is modelled by the block it points to. The class \<open>Vector<T>\<close>
  has the members \<open>data_\<close> and \<open>size_\<close>. The trailing underscore of a member is
  written as a prime. \<open>size_t\<close> is modelled by \<open>nat\<close>: a count of elements held in
  memory never reaches \<open>2^64\<close>, every subtraction of the source that could wrap is
  guarded explicitly in the model, and the one multiplication that a caller can make wrap,
  the byte count in \<open>RawMemory::Allocate\<close>, is written out with its wrap-around.
\<close>

record 'a RawMemory =
  buffer' :: "'a slot list"
  capacity' :: nat

record 'a Vector =
  data' :: "'a RawMemory"
  size' :: nat

text \<open>
  What the container asks of its element type \<open>T\<close>: the two compile-time traits that
  the source queries, whether move assignment is \<open>noexcept\<close>, the state a moved-from
  object is left in, the value of \<open>T()\<close>, and \<open>sizeof(T)\<close> in bytes.
\<close>

record 'a traits =
  is_nothrow_move_constructible :: bool
  is_copy_constructible :: bool
  is_nothrow_move_assignable :: bool
  moved_from :: "'a \<Rightarrow> 'a"
  value_init :: 'a
  sizeof :: nat

text \<open>
  The environment of a call. \<open>budget\<close> injects a failure of an element operation:
  \<open>Some k\<close> lets \<open>k\<close> operations that may throw succeed and makes the next one throw
  (once), \<open>None\<close> injects nothing. \<open>alloc_budget\<close> does the same for \<open>operator new\<close>.
  The counters record the constructor and destructor calls of \<open>T\<close>.
\<close>

record world =
  budget :: "nat option"
  alloc_budget :: "nat option"
  copies :: nat
  moves :: nat
  ctors :: nat
  dtors :: nat

datatype exception = AllocationFailure | ElementOperationFailure

text \<open>
  A call returns a result in a final state, or throws in a final state, or has undefined
  behaviour (a failed \<open>assert\<close>, a read of raw memory, an access out of bounds).
\<close>

datatype ('r, 's) outcome = Returns 'r 's | Throws exception 's | Undefined

definition fallible :: "world \<Rightarrow> (unit, world) outcome" where
  "fallible w = (case budget w of
      None \<Rightarrow> Returns () w
    | Some 0 \<Rightarrow> Throws ElementOperationFailure (w\<lparr>budget := None\<rparr>)
    | Some (Suc k) \<Rightarrow> Returns () (w\<lparr>budget := Some k\<rparr>))"

subsection \<open>Operations of the element type\<close>

definition copy_construct :: "'a \<Rightarrow> world \<Rightarrow> ('a, world) outcome" where
  "copy_construct x w = (case fallible w of
      Returns _ w' \<Rightarrow> Returns x (w'\<lparr>copies := copies w' + 1\<rparr>)
    | Throws e w' \<Rightarrow> Throws e w'
    | Undefined \<Rightarrow> Undefined)"

text \<open>Move construction returns the new object and the state left in the source.\<close>

definition move_construct :: "'a traits \<Rightarrow> 'a \<Rightarrow> world \<Rightarrow> ('a \<times> 'a, world) outcome" where
  "move_construct tr x w =
    (case (if is_nothrow_move_constructible tr then Returns () w else fallible w) of
      Returns _ w' \<Rightarrow> Returns (x, moved_from tr x) (w'\<lparr>moves := moves w' + 1\<rparr>)
    | Throws e w' \<Rightarrow> Throws e w'
    | Undefined \<Rightarrow> Undefined)"

definition value_construct :: "'a traits \<Rightarrow> world \<Rightarrow> ('a, world) outcome" where
  "value_construct tr w = (case fallible w of
      Returns _ w' \<Rightarrow> Returns (value_init tr) (w'\<lparr>ctors := ctors w' + 1\<rparr>)
    | Throws e w' \<Rightarrow> Throws e w'
    | Undefined \<Rightarrow> Undefined)"

text \<open>Copy assignment returns the new value of the target.\<close>

definition copy_assign_elem :: "'a \<Rightarrow> world \<Rightarrow> ('a, world) outcome" where
  "copy_assign_elem x w = (case fallible w of
      Returns _ w' \<Rightarrow> Returns x w'
    | Throws e w' \<Rightarrow> Throws e w'
    | Undefined \<Rightarrow> Undefined)"

text \<open>Move assignment returns the new value of the target and the state left in the source.\<close>

definition move_assign_elem :: "'a traits \<Rightarrow> 'a \<Rightarrow> world \<Rightarrow> ('a \<times> 'a, world) outcome" where
  "move_assign_elem tr x w =
    (case (if is_nothrow_move_assignable tr then Returns () w else fallible w) of
      Returns _ w' \<Rightarrow> Returns (x, moved_from tr x) w'
    | Throws e w' \<Rightarrow> Throws e w'
    | Undefined \<Rightarrow> Undefined)"

text \<open>
  The constructor arguments \<open>Args&&... args\<close> of \<open>EmplaceBack\<close> and \<open>Emplace\<close>: a
  \<open>const T&\<close> (copy construction), a \<open>T&&\<close> (move construction) or anything else
  (some other constructor, which may throw). Each carries the value of the object that the
  constructor builds. These arguments are objects outside the container.
\<close>

datatype 'a args = CopyOf 'a | MoveOf 'a | InPlace 'a

text \<open>
  \<open>Emplace\<close> and \<open>Insert\<close> hold their arguments by reference until the constructor
  of the new element runs. The reference is bound either to arguments outside the
  container, or it is a \<open>const T&\<close> bound to the container's own element \<open>(*this)[i]\<close>,
  as in \<open>v.Insert(pos, v[i])\<close>. \<open>referent buf n r\<close> is what the constructor finds
  behind \<open>r\<close> when it runs on the block \<open>buf\<close>, for a container that had \<open>n\<close>
  elements when the reference was bound; \<open>None\<close> is a reference to no live element.
\<close>

datatype 'a arg_ref = Outside "'a args" | OwnElement nat

fun value_of :: "'a args \<Rightarrow> 'a" where
  "value_of (CopyOf x) = x"
| "value_of (MoveOf x) = x"
| "value_of (InPlace x) = x"

definition construct :: "'a traits \<Rightarrow> 'a args \<Rightarrow> world \<Rightarrow> ('a, world) outcome" where
  "construct tr a w = (case a of
      CopyOf x \<Rightarrow> copy_construct x w
    | MoveOf x \<Rightarrow> (case move_construct tr x w of
          Returns (y, _) w' \<Rightarrow> Returns y w'
        | Throws e w' \<Rightarrow> Throws e w'
        | Undefined \<Rightarrow> Undefined)
    | InPlace x \<Rightarrow> (case fallible w of
          Returns _ w' \<Rightarrow> Returns x (w'\<lparr>ctors := ctors w' + 1\<rparr>)
        | Throws e w' \<Rightarrow> Throws e w'
        | Undefined \<Rightarrow> Undefined))"

subsection \<open>Slots\<close>

definition read :: "'a slot list \<Rightarrow> nat \<Rightarrow> 'a option" where
  "read buf i = (if i < length buf then (case buf ! i of Raw \<Rightarrow> None | Live x \<Rightarrow> Some x) else None)"

definition referent :: "'a slot list \<Rightarrow> nat \<Rightarrow> 'a arg_ref \<Rightarrow> 'a args option" where
  "referent buf n r = (case r of
      Outside a \<Rightarrow> Some a
    | OwnElement i \<Rightarrow>
        if i < n then (case read buf i of None \<Rightarrow> None | Some x \<Rightarrow> Some (CopyOf x)) else None)"

text \<open>Placement new: \<open>new (buf + i) T(args...)\<close>.\<close>

definition construct_at :: "'a traits \<Rightarrow> 'a args \<Rightarrow> 'a slot list \<Rightarrow> nat \<Rightarrow> world
    \<Rightarrow> (unit, 'a slot list \<times> world) outcome" where
  "construct_at tr a buf i w =
    (if i < length buf then
       (case construct tr a w of
          Returns x w' \<Rightarrow> Returns () (buf[i := Live x], w')
        | Throws e w' \<Rightarrow> Throws e (buf, w')
        | Undefined \<Rightarrow> Undefined)
     else Undefined)"

text \<open>
  \<open>std::destroy_at(buf + i)\<close>: destructors do not throw, so the result is an option;
  \<open>None\<close> is undefined behaviour (there is no live object to destroy).
\<close>

definition destroy_at :: "'a slot list \<Rightarrow> nat \<Rightarrow> world \<Rightarrow> ('a slot list \<times> world) option" where
  "destroy_at buf i w = (case read buf i of
      None \<Rightarrow> None
    | Some _ \<Rightarrow> Some (buf[i := Raw], w\<lparr>dtors := dtors w + 1\<rparr>))"

subsection \<open>Algorithms of the standard library on raw and live storage\<close>

text \<open>
  The source calls these algorithms of \<open><memory>\<close> and \<open><algorithm>\<close>; they are
  modelled as the C++ standard specifies them. Each works element by element, in index
  order. The \<open>uninitialized_\<close> algorithms destroy the objects they have constructed
  when a constructor throws, and let the exception pass.
\<close>

text \<open>\<open>std::destroy_n(buf + first, n)\<close>\<close>

fun destroy_n :: "'a slot list \<Rightarrow> nat \<Rightarrow> nat \<Rightarrow> world \<Rightarrow> ('a slot list \<times> world) option" where
  "destroy_n buf first 0 w = Some (buf, w)"
| "destroy_n buf first (Suc n) w = (case destroy_at buf first w of
      Some (buf', w') \<Rightarrow> destroy_n buf' (Suc first) n w'
    | None \<Rightarrow> None)"

text \<open>\<open>std::uninitialized_copy_n(src + first, n, dst + d_first)\<close>; \<open>src\<close> is read only.\<close>

fun uninitialized_copy_n :: "'a slot list \<Rightarrow> nat \<Rightarrow> nat \<Rightarrow> 'a slot list \<Rightarrow> nat \<Rightarrow> world
    \<Rightarrow> (unit, 'a slot list \<times> world) outcome" where
  "uninitialized_copy_n src first 0 dst d_first w = Returns () (dst, w)"
| "uninitialized_copy_n src first (Suc n) dst d_first w =
    (case read src first of
       None \<Rightarrow> Undefined
     | Some x \<Rightarrow>
        if d_first < length dst then
          (case copy_construct x w of
             Returns y w' \<Rightarrow>
               (case uninitialized_copy_n src (Suc first) n (dst[d_first := Live y]) (Suc d_first) w' of
                  Returns u s \<Rightarrow> Returns u s
                | Throws e (dst', w'') \<Rightarrow>
                    Throws e (dst'[d_first := Raw], w''\<lparr>dtors := dtors w'' + 1\<rparr>)
                | Undefined \<Rightarrow> Undefined)
           | Throws e w' \<Rightarrow> Throws e (dst, w')
           | Undefined \<Rightarrow> Undefined)
        else Undefined)"

text \<open>
  \<open>std::uninitialized_move_n(src + first, n, dst + d_first)\<close>; every source object that
  was moved from stays in its moved-from state, also when a later move throws.
\<close>

fun uninitialized_move_n :: "'a traits \<Rightarrow> 'a slot list \<Rightarrow> nat \<Rightarrow> nat \<Rightarrow> 'a slot list \<Rightarrow> nat
    \<Rightarrow> world \<Rightarrow> (unit, 'a slot list \<times> 'a slot list \<times> world) outcome" where
  "uninitialized_move_n tr src first 0 dst d_first w = Returns () (src, dst, w)"
| "uninitialized_move_n tr src first (Suc n) dst d_first w =
    (case read src first of
       None \<Rightarrow> Undefined
     | Some x \<Rightarrow>
        if d_first < length dst then
          (case move_construct tr x w of
             Returns (y, x') w' \<Rightarrow>
               (case uninitialized_move_n tr (src[first := Live x']) (Suc first) n
                       (dst[d_first := Live y]) (Suc d_first) w' of
                  Returns u s \<Rightarrow> Returns u s
                | Throws e (src', dst', w'') \<Rightarrow>
                    Throws e (src', dst'[d_first := Raw], w''\<lparr>dtors := dtors w'' + 1\<rparr>)
                | Undefined \<Rightarrow> Undefined)
           | Throws e w' \<Rightarrow> Throws e (src, dst, w')
           | Undefined \<Rightarrow> Undefined)
        else Undefined)"

text \<open>\<open>std::uninitialized_value_construct_n(buf + first, n)\<close>\<close>

fun uninitialized_value_construct_n :: "'a traits \<Rightarrow> 'a slot list \<Rightarrow> nat \<Rightarrow> nat \<Rightarrow> world
    \<Rightarrow> (unit, 'a slot list \<times> world) outcome" where
  "uninitialized_value_construct_n tr buf first 0 w = Returns () (buf, w)"
| "uninitialized_value_construct_n tr buf first (Suc n) w =
    (if first < length buf then
       (case value_construct tr w of
          Returns y w' \<Rightarrow>
            (case uninitialized_value_construct_n tr (buf[first := Live y]) (Suc first) n w' of
               Returns u s \<Rightarrow> Returns u s
             | Throws e (buf', w'') \<Rightarrow>
                 Throws e (buf'[first := Raw], w''\<lparr>dtors := dtors w'' + 1\<rparr>)
             | Undefined \<Rightarrow> Undefined)
        | Throws e w' \<Rightarrow> Throws e (buf, w')
        | Undefined \<Rightarrow> Undefined)
     else Undefined)"

text \<open>
  One move assignment \<open>buf[d] = std::move(buf[s])\<close> between two live objects of the same
  block. An assignment that throws is taken to leave both objects as they were.
\<close>

definition move_assign_at :: "'a traits \<Rightarrow> 'a slot list \<Rightarrow> nat \<Rightarrow> nat \<Rightarrow> world
    \<Rightarrow> (unit, 'a slot list \<times> world) outcome" where
  "move_assign_at tr buf s d w =
    (case (read buf s, read buf d) of
       (Some x, Some _) \<Rightarrow>
         (case move_assign_elem tr x w of
            Returns (y, x') w' \<Rightarrow> Returns () (buf[s := Live x', d := Live y], w')
          | Throws e w' \<Rightarrow> Throws e (buf, w')
          | Undefined \<Rightarrow> Undefined)
     | _ \<Rightarrow> Undefined)"

text \<open>
  \<open>std::move(buf + first, buf + last, buf + d_first)\<close>: move-assigns front to back.
  \<open>move_n\<close> is its loop over the \<open>last - first\<close> elements.
\<close>

fun move_n :: "'a traits \<Rightarrow> 'a slot list \<Rightarrow> nat \<Rightarrow> nat \<Rightarrow> nat \<Rightarrow> world
    \<Rightarrow> (unit, 'a slot list \<times> world) outcome" where
  "move_n tr buf first 0 d_first w = Returns () (buf, w)"
| "move_n tr buf first (Suc n) d_first w = (case move_assign_at tr buf first d_first w of
      Returns _ (buf', w') \<Rightarrow> move_n tr buf' (Suc first) n (Suc d_first) w'
    | Throws e s \<Rightarrow> Throws e s
    | Undefined \<Rightarrow> Undefined)"

definition std_move :: "'a traits \<Rightarrow> 'a slot list \<Rightarrow> nat \<Rightarrow> nat \<Rightarrow> nat \<Rightarrow> world
    \<Rightarrow> (unit, 'a slot list \<times> world) outcome" where
  "std_move tr buf first lst d_first w =
    (if lst < first then Undefined else move_n tr buf first (lst - first) d_first w)"

text \<open>
  \<open>std::move_backward(buf + first, buf + last, buf + d_last)\<close>: move-assigns back to
  front, \<open>*(--d_last) = std::move(*(--last))\<close>.
\<close>

fun move_backward_n :: "'a traits \<Rightarrow> 'a slot list \<Rightarrow> nat \<Rightarrow> nat \<Rightarrow> nat \<Rightarrow> world
    \<Rightarrow> (unit, 'a slot list \<times> world) outcome" where
  "move_backward_n tr buf 0 lst d_last w = Returns () (buf, w)"
| "move_backward_n tr buf (Suc n) lst d_last w =
    (if lst = 0 \<or> d_last = 0 then Undefined
     else (case move_assign_at tr buf (lst - 1) (d_last - 1) w of
        Returns _ (buf', w') \<Rightarrow> move_backward_n tr buf' n (lst - 1) (d_last - 1) w'
      | Throws e s \<Rightarrow> Throws e s
      | Undefined \<Rightarrow> Undefined))"

definition std_move_backward :: "'a traits \<Rightarrow> 'a slot list \<Rightarrow> nat \<Rightarrow> nat \<Rightarrow> nat \<Rightarrow> world
    \<Rightarrow> (unit, 'a slot list \<times> world) outcome" where
  "std_move_backward tr buf first lst d_last w =
    (if lst < first then Undefined else move_backward_n tr buf (lst - first) lst d_last w)"

section \<open>The raw storage owner\<close>

text \<open>\<open>size_t\<close> has 64 bits.\<close>

definition SIZE_MAX :: nat where
  "SIZE_MAX = 2 ^ 64 - 1"

text \<open>
  \<open>RawMemory::Allocate(n)\<close>: \<open>operator new\<close> is called only for \<open>n \<noteq> 0\<close>, and it
  may throw. The byte count \<open>n * sizeof(T)\<close> is computed in \<open>size_t\<close>, where it wraps;
  the block that \<open>operator new\<close> returns for the wrapped byte count has room for
  \<open>byte_count / sizeof(T)\<close> objects, which is fewer than \<open>n\<close> after a wrap.
\<close>

definition byte_count :: "'a traits \<Rightarrow> nat \<Rightarrow> nat" where
  "byte_count tr n = (n * sizeof tr) mod (SIZE_MAX + 1)"

definition Allocate :: "'a traits \<Rightarrow> nat \<Rightarrow> world \<Rightarrow> ('a slot list, world) outcome" where
  "Allocate tr n w =
    (if n \<noteq> 0 then
       (case alloc_budget w of
          None \<Rightarrow> Returns (replicate (byte_count tr n div sizeof tr) Raw) w
        | Some 0 \<Rightarrow> Throws AllocationFailure (w\<lparr>alloc_budget := None\<rparr>)
        | Some (Suc k) \<Rightarrow>
            Returns (replicate (byte_count tr n div sizeof tr) Raw) (w\<lparr>alloc_budget := Some k\<rparr>))
     else Returns [] w)"

text \<open>\<open>RawMemory() = default\<close>\<close>

definition RawMemory_default :: "'a RawMemory" where
  "RawMemory_default = \<lparr>buffer' = [], capacity' = 0\<rparr>"

text \<open>\<open>explicit RawMemory(size_t capacity)\<close>: \<open>capacity_\<close> is the request, also after a wrap.\<close>

definition RawMemory_new :: "'a traits \<Rightarrow> nat \<Rightarrow> world \<Rightarrow> ('a RawMemory, world) outcome" where
  "RawMemory_new tr n w = (case Allocate tr n w of
      Returns buf w' \<Rightarrow> Returns \<lparr>buffer' = buf, capacity' = n\<rparr> w'
    | Throws e w' \<Rightarrow> Throws e w'
    | Undefined \<Rightarrow> Undefined)"

text \<open>
  The requests that the container computes from its own element count:
  \<open>Capacity() == 0 ? 1 : size_ * 2\<close> in \<open>EmplaceBack\<close> and \<open>EmplaceNoCapacity\<close>, and
  \<open>other.size_\<close> in the copy constructor. The elements counted there are in memory, in a
  block of at most \<open>PTRDIFF_MAX = 2^63 - 1\<close> bytes, so the byte count of a request for
  at most twice their number is below \<open>2^64\<close>: the multiplication cannot wrap, and the
  block has exactly \<open>n\<close> slots. \<open>Allocate_exact\<close> and \<open>RawMemory_exact\<close> are
  \<open>Allocate\<close> and the constructor at these requests. In \<open>Reserve\<close>, \<open>Resize\<close> and
  \<open>Vector(size_t)\<close> the request is the caller's number, and \<open>RawMemory_new\<close> stands.
\<close>

definition Allocate_exact :: "nat \<Rightarrow> world \<Rightarrow> ('a slot list, world) outcome" where
  "Allocate_exact n w =
    (if n \<noteq> 0 then
       (case alloc_budget w of
          None \<Rightarrow> Returns (replicate n Raw) w
        | Some 0 \<Rightarrow> Throws AllocationFailure (w\<lparr>alloc_budget := None\<rparr>)
        | Some (Suc k) \<Rightarrow> Returns (replicate n Raw) (w\<lparr>alloc_budget := Some k\<rparr>))
     else Returns [] w)"

definition RawMemory_exact :: "nat \<Rightarrow> world \<Rightarrow> ('a RawMemory, world) outcome" where
  "RawMemory_exact n w = (case Allocate_exact n w of
      Returns buf w' \<Rightarrow> Returns \<lparr>buffer' = buf, capacity' = n\<rparr> w'
    | Throws e w' \<Rightarrow> Throws e w'
    | Undefined \<Rightarrow> Undefined)"

text \<open>\<open>RawMemory::Swap\<close>: the pair is (\<open>*this\<close>, \<open>other\<close>) after the call.\<close>

definition RawMemory_Swap :: "'a RawMemory \<Rightarrow> 'a RawMemory \<Rightarrow> 'a RawMemory \<times> 'a RawMemory" where
  "RawMemory_Swap this other =
    (this\<lparr>buffer' := buffer' other, capacity' := capacity' other\<rparr>,
     other\<lparr>buffer' := buffer' this, capacity' := capacity' this\<rparr>)"

text \<open>
  \<open>RawMemory::operator+\<close> and \<open>RawMemory::operator[]\<close> assert their argument; the
  two predicates say when the assertion holds.
\<close>

definition plus_ok :: "'a RawMemory \<Rightarrow> nat \<Rightarrow> bool" where
  "plus_ok m offset \<longleftrightarrow> offset \<le> capacity' m"

definition subscript_ok :: "'a RawMemory \<Rightarrow> nat \<Rightarrow> bool" where
  "subscript_ok m index \<longleftrightarrow> index < capacity' m"

section \<open>The sequence container\<close>

definition Size :: "'a Vector \<Rightarrow> nat" where
  "Size v = size' v"

definition Capacity :: "'a Vector \<Rightarrow> nat" where
  "Capacity v = capacity' (data' v)"

text \<open>\<open>Vector::operator[]\<close>: \<open>None\<close> when an assertion fails or the slot is raw.\<close>

definition subscript :: "'a Vector \<Rightarrow> nat \<Rightarrow> 'a option" where
  "subscript v index =
    (if index < size' v \<and> subscript_ok (data' v) index then read (buffer' (data' v)) index
     else None)"

text \<open>\<open>Vector() = default\<close>\<close>

definition Vector_default :: "'a Vector" where
  "Vector_default = \<lparr>data' = RawMemory_default, size' = 0\<rparr>"

text \<open>\<open>Vector::~Vector\<close>, followed by the release of the block.\<close>

definition Vector_destructor :: "'a Vector \<Rightarrow> world \<Rightarrow> world option" where
  "Vector_destructor v w = (case destroy_n (buffer' (data' v)) 0 (size' v) w of
      Some (_, w') \<Rightarrow> Some w'
    | None \<Rightarrow> None)"

text \<open>\<open>explicit Vector(size_t size)\<close>\<close>

definition Vector_sized :: "'a traits \<Rightarrow> nat \<Rightarrow> world \<Rightarrow> ('a Vector, world) outcome" where
  "Vector_sized tr n w = (case RawMemory_new tr n w of
      Returns d w1 \<Rightarrow>
        (case uninitialized_value_construct_n tr (buffer' d) 0 n w1 of
           Returns _ (buf, w2) \<Rightarrow> Returns \<lparr>data' = d\<lparr>buffer' := buf\<rparr>, size' = n\<rparr> w2
         | Throws e (_, w2) \<Rightarrow> Throws e w2
         | Undefined \<Rightarrow> Undefined)
    | Throws e w1 \<Rightarrow> Throws e w1
    | Undefined \<Rightarrow> Undefined)"

text \<open>\<open>Vector(const Vector& other)\<close>\<close>

definition Vector_copy :: "'a Vector \<Rightarrow> world \<Rightarrow> ('a Vector, world) outcome" where
  "Vector_copy other w = (case RawMemory_exact (size' other) w of
      Returns d w1 \<Rightarrow>
        (case uninitialized_copy_n (buffer' (data' other)) 0 (size' other) (buffer' d) 0 w1 of
           Returns _ (buf, w2) \<Rightarrow> Returns \<lparr>data' = d\<lparr>buffer' := buf\<rparr>, size' = size' other\<rparr> w2
         | Throws e (_, w2) \<Rightarrow> Throws e w2
         | Undefined \<Rightarrow> Undefined)
    | Throws e w1 \<Rightarrow> Throws e w1
    | Undefined \<Rightarrow> Undefined)"

text \<open>\<open>Vector::Swap\<close>: the pair is (\<open>*this\<close>, \<open>other\<close>) after the call.\<close>

definition Swap :: "'a Vector \<Rightarrow> 'a Vector \<Rightarrow> 'a Vector \<times> 'a Vector" where
  "Swap this other = (case RawMemory_Swap (data' this) (data' other) of
      (d, d') \<Rightarrow> (this\<lparr>data' := d, size' := size' other\<rparr>, other\<lparr>data' := d', size' := size' this\<rparr>))"

text \<open>
  \<open>Vector(Vector&& other) noexcept\<close>: the new object starts with the default member
  initialisers and swaps with \<open>other\<close>. The pair is (new object, \<open>other\<close>).
\<close>

definition Vector_move :: "'a Vector \<Rightarrow> 'a Vector \<times> 'a Vector" where
  "Vector_move other = Swap Vector_default other"

text \<open>
  The result of relocating from a block that the algorithm only reads: the source block
  is returned unchanged beside the destination.
\<close>

definition const_source :: "'x \<Rightarrow> ('r, 'y \<times> world) outcome \<Rightarrow> ('r, 'x \<times> 'y \<times> world) outcome" where
  "const_source src m = (case m of
      Returns r (dst, w) \<Rightarrow> Returns r (src, dst, w)
    | Throws e (dst, w) \<Rightarrow> Throws e (src, dst, w)
    | Undefined \<Rightarrow> Undefined)"

text \<open>\<open>Vector::Reserve\<close>\<close>

definition Reserve :: "'a traits \<Rightarrow> nat \<Rightarrow> 'a Vector \<Rightarrow> world \<Rightarrow> (unit, 'a Vector \<times> world) outcome" where
  "Reserve tr new_capacity v w =
    (if new_capacity \<le> capacity' (data' v) then Returns () (v, w)
     else
       (case RawMemory_new tr new_capacity w of
          Returns new_data w1 \<Rightarrow>
            (case (if is_nothrow_move_constructible tr \<or> \<not> is_copy_constructible tr
                   then uninitialized_move_n tr (buffer' (data' v)) 0 (size' v) (buffer' new_data) 0 w1
                   else const_source (buffer' (data' v))
                          (uninitialized_copy_n (buffer' (data' v)) 0 (size' v) (buffer' new_data) 0 w1)) of
               Returns _ (old, new, w2) \<Rightarrow>
                 (case destroy_n old 0 (size' v) w2 of
                    Some (old', w3) \<Rightarrow>
                      (case RawMemory_Swap ((data' v)\<lparr>buffer' := old'\<rparr>) (new_data\<lparr>buffer' := new\<rparr>) of
                         (d, released) \<Rightarrow> Returns () (v\<lparr>data' := d\<rparr>, w3))
                  | None \<Rightarrow> Undefined)
             | Throws e (old, new, w2) \<Rightarrow> Throws e (v\<lparr>data' := (data' v)\<lparr>buffer' := old\<rparr>\<rparr>, w2)
             | Undefined \<Rightarrow> Undefined)
        | Throws e w1 \<Rightarrow> Throws e (v, w1)
        | Undefined \<Rightarrow> Undefined))"

text \<open>\<open>Vector::Resize\<close>\<close>

definition Resize :: "'a traits \<Rightarrow> nat \<Rightarrow> 'a Vector \<Rightarrow> world \<Rightarrow> (unit, 'a Vector \<times> world) outcome" where
  "Resize tr new_size v w =
    (case Reserve tr new_size v w of
       Returns _ (v1, w1) \<Rightarrow>
         (case (if size' v1 < new_size
                then uninitialized_value_construct_n tr (buffer' (data' v1)) (size' v1)
                       (new_size - size' v1) w1
                else Returns () (buffer' (data' v1), w1)) of
            Returns _ (buf2, w2) \<Rightarrow>
              (case (if size' v1 > new_size
                     then destroy_n buf2 new_size (size' v1 - new_size) w2
                     else Some (buf2, w2)) of
                 Some (buf3, w3) \<Rightarrow>
                   Returns () (v1\<lparr>data' := (data' v1)\<lparr>buffer' := buf3\<rparr>, size' := new_size\<rparr>, w3)
               | None \<Rightarrow> Undefined)
          | Throws e (buf2, w2) \<Rightarrow> Throws e (v1\<lparr>data' := (data' v1)\<lparr>buffer' := buf2\<rparr>\<rparr>, w2)
          | Undefined \<Rightarrow> Undefined)
     | Throws e s \<Rightarrow> Throws e s
     | Undefined \<Rightarrow> Undefined)"

text \<open>
  \<open>Vector::EmplaceBack\<close>. The returned reference \<open>*(data_.GetAddress() + size_ - 1)\<close> is
  modelled by the index of the slot it refers to.
\<close>

definition EmplaceBack :: "'a traits \<Rightarrow> 'a args \<Rightarrow> 'a Vector \<Rightarrow> world
    \<Rightarrow> (nat, 'a Vector \<times> world) outcome" where
  "EmplaceBack tr a v w =
    (if size' v = Capacity v then
       (case RawMemory_exact (if Capacity v = 0 then 1 else size' v * 2) w of
          Returns new_data w1 \<Rightarrow>
            if plus_ok new_data (size' v) then
              (case construct_at tr a (buffer' new_data) (size' v) w1 of
                 Returns _ (new1, w2) \<Rightarrow>
                   (case (if is_nothrow_move_constructible tr \<or> \<not> is_copy_constructible tr
                          then uninitialized_move_n tr (buffer' (data' v)) 0 (size' v) new1 0 w2
                          else const_source (buffer' (data' v))
                                 (uninitialized_copy_n (buffer' (data' v)) 0 (size' v) new1 0 w2)) of
                      Returns _ (old, new, w3) \<Rightarrow>
                        (case destroy_n old 0 (size' v) w3 of
                           Some (old', w4) \<Rightarrow>
                             (case RawMemory_Swap ((data' v)\<lparr>buffer' := old'\<rparr>)
                                     (new_data\<lparr>buffer' := new\<rparr>) of
                                (d, released) \<Rightarrow>
                                  Returns (size' v + 1 - 1) (v\<lparr>data' := d, size' := size' v + 1\<rparr>, w4))
                         | None \<Rightarrow> Undefined)
                    | Throws e (old, new, w3) \<Rightarrow>
                        Throws e (v\<lparr>data' := (data' v)\<lparr>buffer' := old\<rparr>\<rparr>, w3)
                    | Undefined \<Rightarrow> Undefined)
               | Throws e (_, w2) \<Rightarrow> Throws e (v, w2)
               | Undefined \<Rightarrow> Undefined)
            else Undefined
        | Throws e w1 \<Rightarrow> Throws e (v, w1)
        | Undefined \<Rightarrow> Undefined)
     else if plus_ok (data' v) (size' v) then
       (case construct_at tr a (buffer' (data' v)) (size' v) w of
          Returns _ (buf, w1) \<Rightarrow>
            Returns (size' v + 1 - 1) (v\<lparr>data' := (data' v)\<lparr>buffer' := buf\<rparr>, size' := size' v + 1\<rparr>, w1)
        | Throws e (_, w1) \<Rightarrow> Throws e (v, w1)
        | Undefined \<Rightarrow> Undefined)
     else Undefined)"

text \<open>\<open>Vector::PushBack\<close> forwards a \<open>const T&\<close> or a \<open>T&&\<close> to \<open>EmplaceBack\<close>.\<close>

definition PushBack :: "'a traits \<Rightarrow> 'a args \<Rightarrow> 'a Vector \<Rightarrow> world \<Rightarrow> (unit, 'a Vector \<times> world) outcome" where
  "PushBack tr value v w = (case EmplaceBack tr value v w of
      Returns _ s \<Rightarrow> Returns () s
    | Throws e s \<Rightarrow> Throws e s
    | Undefined \<Rightarrow> Undefined)"

text \<open>\<open>Vector::PopBack\<close>: with \<open>size_ = 0\<close> the address \<open>data_.GetAddress() + size_ - 1\<close> is no object.\<close>

definition PopBack :: "'a Vector \<Rightarrow> world \<Rightarrow> (unit, 'a Vector \<times> world) outcome" where
  "PopBack v w =
    (if size' v = 0 then Undefined
     else (case destroy_at (buffer' (data' v)) (size' v - 1) w of
        Some (buf, w') \<Rightarrow>
          Returns () (v\<lparr>data' := (data' v)\<lparr>buffer' := buf\<rparr>, size' := size' v - 1\<rparr>, w')
      | None \<Rightarrow> Undefined))"

text \<open>
  \<open>Vector::EmplaceEnoughtCapacity\<close>. An iterator is modelled by the index of the slot
  it points to. \<open>data_[size_ - 1]\<close> needs \<open>size_ > 0\<close>; the temporary \<open>T(args...)\<close> is
  built from the arguments only in the third statement, on the block as the first two
  statements have left it, and it is destroyed at the end of that statement, also when the
  assignment throws.
\<close>

definition EmplaceEnoughtCapacity :: "'a traits \<Rightarrow> nat \<Rightarrow> 'a arg_ref \<Rightarrow> 'a Vector \<Rightarrow> world
    \<Rightarrow> (nat, 'a Vector \<times> world) outcome" where
  "EmplaceEnoughtCapacity tr index r v w =
    (if size' v = 0 \<or> \<not> subscript_ok (data' v) (size' v - 1) then Undefined
     else
       (case read (buffer' (data' v)) (size' v - 1) of
          None \<Rightarrow> Undefined
        | Some x \<Rightarrow>
           if size' v < length (buffer' (data' v)) then
             (case move_construct tr x w of
                Returns (y, x') w1 \<Rightarrow>
                  (case std_move_backward tr
                          ((buffer' (data' v))[size' v - 1 := Live x', size' v := Live y])
                          index (size' v - 1) (size' v) w1 of
                     Returns _ (buf2, w2) \<Rightarrow>
                       (case referent buf2 (size' v) r of
                          None \<Rightarrow> Undefined
                        | Some a \<Rightarrow>
                           (case construct tr a w2 of
                              Returns t w3 \<Rightarrow>
                                if subscript_ok (data' v) index then
                                  (case read buf2 index of
                                     None \<Rightarrow> Undefined
                                   | Some _ \<Rightarrow>
                                      (case move_assign_elem tr t w3 of
                                         Returns (y', t') w4 \<Rightarrow>
                                           Returns index
                                             (v\<lparr>data' := (data' v)\<lparr>buffer' := buf2[index := Live y']\<rparr>,
                                                size' := size' v + 1\<rparr>,
                                              w4\<lparr>dtors := dtors w4 + 1\<rparr>)
                                       | Throws e w4 \<Rightarrow>
                                           Throws e (v\<lparr>data' := (data' v)\<lparr>buffer' := buf2\<rparr>\<rparr>,
                                                     w4\<lparr>dtors := dtors w4 + 1\<rparr>)
                                       | Undefined \<Rightarrow> Undefined))
                                else Undefined
                            | Throws e w3 \<Rightarrow> Throws e (v\<lparr>data' := (data' v)\<lparr>buffer' := buf2\<rparr>\<rparr>, w3)
                            | Undefined \<Rightarrow> Undefined))
                   | Throws e (buf2, w2) \<Rightarrow> Throws e (v\<lparr>data' := (data' v)\<lparr>buffer' := buf2\<rparr>\<rparr>, w2)
                   | Undefined \<Rightarrow> Undefined)
              | Throws e w1 \<Rightarrow> Throws e (v, w1)
              | Undefined \<Rightarrow> Undefined)
           else Undefined))"

text \<open>
  \<open>Vector::EmplaceNoCapacity\<close>. \<open>size_ - index\<close> wraps for \<open>index > size_\<close>, which
  makes the second relocation run out of the block. Both branches of the
  \<open>if constexpr\<close> construct the new element first, from the arguments as the call has
  found them, and then relocate the prefix and the suffix, each with its own call of the
  algorithm.
\<close>

definition EmplaceNoCapacity :: "'a traits \<Rightarrow> nat \<Rightarrow> 'a arg_ref \<Rightarrow> 'a Vector \<Rightarrow> world
    \<Rightarrow> (nat, 'a Vector \<times> world) outcome" where
  "EmplaceNoCapacity tr index r v w =
    (if index > size' v then Undefined
     else
       (case RawMemory_exact (if Capacity v = 0 then 1 else size' v * 2) w of
          Returns new_data w1 \<Rightarrow>
           (case referent (buffer' (data' v)) (size' v) r of
              None \<Rightarrow> Undefined
            | Some a \<Rightarrow>
              (case construct_at tr a (buffer' new_data) index w1 of
               Returns _ (new1, w2) \<Rightarrow>
                 (case (if is_nothrow_move_constructible tr \<or> \<not> is_copy_constructible tr
                        then uninitialized_move_n tr (buffer' (data' v)) 0 index new1 0 w2
                        else const_source (buffer' (data' v))
                               (uninitialized_copy_n (buffer' (data' v)) 0 index new1 0 w2)) of
                    Returns _ (old2, new2, w3) \<Rightarrow>
                      (case (if is_nothrow_move_constructible tr \<or> \<not> is_copy_constructible tr
                             then uninitialized_move_n tr old2 index (size' v - index) new2 (index + 1) w3
                             else const_source old2
                                    (uninitialized_copy_n old2 index (size' v - index) new2 (index + 1) w3)) of
                         Returns _ (old3, new3, w4) \<Rightarrow>
                           (case destroy_n old3 0 (size' v) w4 of
                              Some (old', w5) \<Rightarrow>
                                (case RawMemory_Swap ((data' v)\<lparr>buffer' := old'\<rparr>)
                                        (new_data\<lparr>buffer' := new3\<rparr>) of
                                   (d, released) \<Rightarrow>
                                     Returns index (v\<lparr>data' := d, size' := size' v + 1\<rparr>, w5))
                            | None \<Rightarrow> Undefined)
                       | Throws e (old3, new3, w4) \<Rightarrow>
                           Throws e (v\<lparr>data' := (data' v)\<lparr>buffer' := old3\<rparr>\<rparr>, w4)
                       | Undefined \<Rightarrow> Undefined)
                  | Throws e (old2, new2, w3) \<Rightarrow>
                      Throws e (v\<lparr>data' := (data' v)\<lparr>buffer' := old2\<rparr>\<rparr>, w3)
                  | Undefined \<Rightarrow> Undefined)
             | Throws e (_, w2) \<Rightarrow> Throws e (v, w2)
             | Undefined \<Rightarrow> Undefined))
        | Throws e w1 \<Rightarrow> Throws e (v, w1)
        | Undefined \<Rightarrow> Undefined))"

text \<open>
  \<open>Vector::Emplace\<close>: \<open>position\<close> is the index \<open>position - begin()\<close>, so
  \<open>position == cend()\<close> reads \<open>position = size_\<close>; \<open>end() - 1\<close> is the index
  \<open>size_ - 1\<close> after the append. \<open>EmplaceBack\<close> builds the new element before it
  changes any element of the container, so it finds behind a reference what the call has
  found there.
\<close>

definition Emplace :: "'a traits \<Rightarrow> nat \<Rightarrow> 'a arg_ref \<Rightarrow> 'a Vector \<Rightarrow> world
    \<Rightarrow> (nat, 'a Vector \<times> world) outcome" where
  "Emplace tr position r v w =
    (if position = size' v then
       (case referent (buffer' (data' v)) (size' v) r of
          None \<Rightarrow> Undefined
        | Some a \<Rightarrow>
           (case EmplaceBack tr a v w of
              Returns _ (v', w') \<Rightarrow> Returns (size' v' - 1) (v', w')
            | Throws e s \<Rightarrow> Throws e s
            | Undefined \<Rightarrow> Undefined))
     else if size' v < Capacity v then EmplaceEnoughtCapacity tr position r v w
     else EmplaceNoCapacity tr position r v w)"

text \<open>
  \<open>Vector::Insert\<close>, for \<open>const T&\<close> and for \<open>T&&\<close>, with a value outside the
  container; and the \<open>const T&\<close> overload called with the container's own element,
  \<open>v.Insert(position, v[i])\<close>.
\<close>

definition Insert_copy :: "'a traits \<Rightarrow> nat \<Rightarrow> 'a \<Rightarrow> 'a Vector \<Rightarrow> world
    \<Rightarrow> (nat, 'a Vector \<times> world) outcome" where
  "Insert_copy tr position x v w = Emplace tr position (Outside (CopyOf x)) v w"

definition Insert_move :: "'a traits \<Rightarrow> nat \<Rightarrow> 'a \<Rightarrow> 'a Vector \<Rightarrow> world
    \<Rightarrow> (nat, 'a Vector \<times> world) outcome" where
  "Insert_move tr position x v w = Emplace tr position (Outside (MoveOf x)) v w"

definition Insert_own_element :: "'a traits \<Rightarrow> nat \<Rightarrow> nat \<Rightarrow> 'a Vector \<Rightarrow> world
    \<Rightarrow> (nat, 'a Vector \<times> world) outcome" where
  "Insert_own_element tr position i v w = Emplace tr position (OwnElement i) v w"

text \<open>
  \<open>Vector::Erase\<close>: \<open>begin() + distance + 1\<close> beyond \<open>end()\<close> is no valid range, and
  \<open>size_ - 1\<close> needs \<open>size_ > 0\<close>.
\<close>

definition Erase :: "'a traits \<Rightarrow> nat \<Rightarrow> 'a Vector \<Rightarrow> world \<Rightarrow> (nat, 'a Vector \<times> world) outcome" where
  "Erase tr position v w =
    (case std_move tr (buffer' (data' v)) (position + 1) (size' v) position w of
       Returns _ (buf, w1) \<Rightarrow>
         if size' v = 0 then Undefined
         else (case destroy_at buf (size' v - 1) w1 of
            Some (buf', w2) \<Rightarrow>
              Returns position (v\<lparr>data' := (data' v)\<lparr>buffer' := buf'\<rparr>, size' := size' v - 1\<rparr>, w2)
          | None \<Rightarrow> Undefined)
     | Throws e (buf, w1) \<Rightarrow> Throws e (v\<lparr>data' := (data' v)\<lparr>buffer' := buf\<rparr>\<rparr>, w1)
     | Undefined \<Rightarrow> Undefined)"

subsection \<open>Assignment\<close>

text \<open>
  The loop \<open>for (i = 0; i < min(rhs.size_, size_); ++i) data_[i] = rhs.data_[i]\<close> of the
  copy assignment, from index \<open>i\<close> up to \<open>bound\<close>. A copy assignment of an element that
  throws is taken to leave its target as it was.
\<close>

function copy_assign_loop :: "'a RawMemory \<Rightarrow> 'a RawMemory \<Rightarrow> nat \<Rightarrow> nat \<Rightarrow> world
    \<Rightarrow> (unit, 'a RawMemory \<times> world) outcome" where
  "copy_assign_loop d r i bound w =
    (if i < bound then
       (if subscript_ok d i \<and> subscript_ok r i then
          (case (read (buffer' r) i, read (buffer' d) i) of
             (Some x, Some _) \<Rightarrow>
               (case copy_assign_elem x w of
                  Returns y w' \<Rightarrow>
                    copy_assign_loop (d\<lparr>buffer' := (buffer' d)[i := Live y]\<rparr>) r (Suc i) bound w'
                | Throws e w' \<Rightarrow> Throws e (d, w')
                | Undefined \<Rightarrow> Undefined)
           | _ \<Rightarrow> Undefined)
        else Undefined)
     else Returns () (d, w))"
  by pat_completeness auto
termination
  by (relation "measure (\<lambda>(d, r, i, bound, w). bound - i)") auto

declare copy_assign_loop.simps [simp del]

text \<open>
  The body of \<open>Vector::operator=(const Vector& rhs)\<close> under \<open>this != &rhs\<close>: \<open>rhs\<close> is
  then another object, which the body only reads. In the first branch the temporary
  \<open>rhs_copy\<close> holds the former contents of \<open>*this\<close> after the swap and is destroyed.
\<close>

definition copy_assign_body :: "'a Vector \<Rightarrow> 'a Vector \<Rightarrow> world \<Rightarrow> (unit, 'a Vector \<times> world) outcome" where
  "copy_assign_body this rhs w =
    (if size' rhs > capacity' (data' this) then
       (case Vector_copy rhs w of
          Returns rhs_copy w1 \<Rightarrow>
            (case Swap this rhs_copy of
               (this', rhs_copy') \<Rightarrow>
                 (case Vector_destructor rhs_copy' w1 of
                    Some w2 \<Rightarrow> Returns () (this', w2)
                  | None \<Rightarrow> Undefined))
        | Throws e w1 \<Rightarrow> Throws e (this, w1)
        | Undefined \<Rightarrow> Undefined)
     else
       (case copy_assign_loop (data' this) (data' rhs) 0 (min (size' rhs) (size' this)) w of
          Returns _ (d1, w1) \<Rightarrow>
            if size' rhs < size' this then
              (case destroy_n (buffer' d1) (size' rhs) (size' this - size' rhs) w1 of
                 Some (buf, w2) \<Rightarrow>
                   Returns () (this\<lparr>data' := d1\<lparr>buffer' := buf\<rparr>, size' := size' rhs\<rparr>, w2)
               | None \<Rightarrow> Undefined)
            else
              (case uninitialized_copy_n (buffer' (data' rhs)) (size' this)
                      (size' rhs - size' this) (buffer' d1) (size' this) w1 of
                 Returns _ (buf, w2) \<Rightarrow>
                   Returns () (this\<lparr>data' := d1\<lparr>buffer' := buf\<rparr>, size' := size' rhs\<rparr>, w2)
               | Throws e (buf, w2) \<Rightarrow> Throws e (this\<lparr>data' := d1\<lparr>buffer' := buf\<rparr>\<rparr>, w2)
               | Undefined \<Rightarrow> Undefined)
        | Throws e (d1, w1) \<Rightarrow> Throws e (this\<lparr>data' := d1\<rparr>, w1)
        | Undefined \<Rightarrow> Undefined))"

text \<open>
  Whether an assignment is a self-assignment depends on the identity of the two objects,
  not on their values. Objects live in a store, at addresses; \<open>this\<close> and \<open>rhs\<close> are
  the addresses of the two operands.
\<close>

type_synonym 'a store = "nat \<Rightarrow> 'a Vector"

text \<open>\<open>Vector::operator=(const Vector& rhs)\<close>\<close>

definition copy_assign :: "nat \<Rightarrow> nat \<Rightarrow> 'a store \<Rightarrow> world \<Rightarrow> (unit, 'a store \<times> world) outcome" where
  "copy_assign this rhs st w =
    (if this \<noteq> rhs then
       (case copy_assign_body (st this) (st rhs) w of
          Returns _ (v, w') \<Rightarrow> Returns () (st(this := v), w')
        | Throws e (v, w') \<Rightarrow> Throws e (st(this := v), w')
        | Undefined \<Rightarrow> Undefined)
     else Returns () (st, w))"

text \<open>\<open>Vector::operator=(Vector&& rhs) noexcept\<close>\<close>

definition move_assign :: "nat \<Rightarrow> nat \<Rightarrow> 'a store \<Rightarrow> 'a store" where
  "move_assign this rhs st =
    (if this \<noteq> rhs then
       (case Swap (st this) (st rhs) of (v, v') \<Rightarrow> st(this := v, rhs := v'))
     else st)"

text \<open>
  \<open>Vector(Vector&& other) noexcept\<close> in the store: the new object is built at the
  fresh address \<open>this\<close>.
\<close>

definition move_construct_at :: "nat \<Rightarrow> nat \<Rightarrow> 'a store \<Rightarrow> 'a store" where
  "move_construct_at this other st =
    (case Vector_move (st other) of (v, v') \<Rightarrow> st(this := v, other := v'))"

section \<open>Specification vocabulary\<close>

text \<open>
  The invariant of the container: \<open>size_\<close> is at most the capacity, the block has
  exactly \<open>capacity_\<close> slots, the slots below \<open>size_\<close> hold live objects and the slots
  from \<open>size_\<close> on are raw memory.
\<close>

definition invariant :: "'a Vector \<Rightarrow> bool" where
  "invariant v \<longleftrightarrow>
     size' v \<le> capacity' (data' v) \<and> length (buffer' (data' v)) = capacity' (data' v)
     \<and> list_all (\<lambda>s. s \<noteq> Raw) (take (size' v) (buffer' (data' v)))
     \<and> list_all (\<lambda>s. s = Raw) (drop (size' v) (buffer' (data' v)))"

text \<open>The elements of a container, as \<open>operator[]\<close> reads them at the indices below \<open>size_\<close>.\<close>

definition elements :: "'a Vector \<Rightarrow> 'a option list" where
  "elements v = map (subscript v) [0..<size' v]"

text \<open>
  The relocation block that \<open>Reserve\<close>, \<open>EmplaceBack\<close> and \<open>EmplaceNoCapacity\<close> each
  write out: the \<open>if constexpr\<close> over the two traits, and the algorithm of either branch.
  The definitions above keep the block inline, as the source does; the proofs fold it into
  this constant.
\<close>

definition relocate :: "'a traits \<Rightarrow> 'a slot list \<Rightarrow> nat \<Rightarrow> nat \<Rightarrow> 'a slot list \<Rightarrow> nat \<Rightarrow> world
    \<Rightarrow> (unit, 'a slot list \<times> 'a slot list \<times> world) outcome" where
  "relocate tr src first n dst d w =
     (if is_nothrow_move_constructible tr \<or> \<not> is_copy_constructible tr
      then uninitialized_move_n tr src first n dst d w
      else const_source src (uninitialized_copy_n src first n dst d w))"

definition moves_on_relocation :: "'a traits \<Rightarrow> bool" where
  "moves_on_relocation tr \<longleftrightarrow> is_nothrow_move_constructible tr \<or> \<not> is_copy_constructible tr"

text \<open>
  A sequence of appends, one \<open>PushBack\<close> per argument; the result lists the capacity
  observed after each append.
\<close>

fun appends :: "'a traits \<Rightarrow> 'a args list \<Rightarrow> 'a Vector \<Rightarrow> world
    \<Rightarrow> (nat list, 'a Vector \<times> world) outcome" where
  "appends tr [] v w = Returns [] (v, w)"
| "appends tr (a # as) v w = (case PushBack tr a v w of
      Returns _ (v1, w1) \<Rightarrow>
        (case appends tr as v1 w1 of
           Returns cs s \<Rightarrow> Returns (Capacity v1 # cs) s
         | Throws e s \<Rightarrow> Throws e s
         | Undefined \<Rightarrow> Undefined)
    | Throws e s \<Rightarrow> Throws e s
    | Undefined \<Rightarrow> Undefined)"

text \<open>The copy and move constructions that building the new element from its arguments takes.\<close>

definition copies_of :: "'a args \<Rightarrow> nat" where
  "copies_of a = (case a of CopyOf _ \<Rightarrow> 1 | _ \<Rightarrow> 0)"

definition moves_of :: "'a args \<Rightarrow> nat" where
  "moves_of a = (case a of MoveOf _ \<Rightarrow> 1 | _ \<Rightarrow> 0)"

text \<open>Whether a call ends by an exception.\<close>

definition throws :: "('r, 's) outcome \<Rightarrow> bool" where
  "throws m = (case m of Throws _ _ \<Rightarrow> True | _ \<Rightarrow> False)"

subsection \<open>Concrete containers, element types and environments\<close>

text \<open>The container that holds the elements \<open>xs\<close> in a block of \<open>c\<close> slots.\<close>

definition vec :: "'a list \<Rightarrow> nat \<Rightarrow> 'a Vector" where
  "vec xs c = \<lparr>data' = \<lparr>buffer' = map Live xs @ replicate (c - length xs) Raw, capacity' = c\<rparr>,
              size' = length xs\<rparr>"

text \<open>An environment that injects no failure, and one that lets \<open>k\<close> element operations pass.\<close>

definition quiet :: world where
  "quiet = \<lparr>budget = None, alloc_budget = None, copies = 0, moves = 0, ctors = 0, dtors = 0\<rparr>"

definition failing_after :: "nat \<Rightarrow> world" where
  "failing_after k = quiet\<lparr>budget := Some k\<rparr>"

text \<open>
  Three element types over \<open>nat\<close>, each of 4 bytes and leaving \<open>0\<close> in a moved-from object: a copyable
  type whose moves may throw, a type whose moves are \<open>noexcept\<close>, and a move-only type
  whose moves may throw.
\<close>

definition copyable_type :: "nat traits" where
  "copyable_type = \<lparr>is_nothrow_move_constructible = False, is_copy_constructible = True,
     is_nothrow_move_assignable = False, moved_from = (\<lambda>x. 0), value_init = 0, sizeof = 4\<rparr>"

definition nothrow_type :: "nat traits" where
  "nothrow_type = \<lparr>is_nothrow_move_constructible = True, is_copy_constructible = True,
     is_nothrow_move_assignable = True, moved_from = (\<lambda>x. 0), value_init = 0, sizeof = 4\<rparr>"

definition move_only_type :: "nat traits" where
  "move_only_type = \<lparr>is_nothrow_move_constructible = False, is_copy_constructible = False,
     is_nothrow_move_assignable = False, moved_from = (\<lambda>x. 0), value_init = 0, sizeof = 4\<rparr>"

text \<open>
  A trivially copyable type of 4 bytes, such as \<open>int\<close>: no operation throws, and a move
  leaves the source with its value.
\<close>

definition trivial_type :: "nat traits" where
  "trivial_type = \<lparr>is_nothrow_move_constructible = True, is_copy_constructible = True,
     is_nothrow_move_assignable = True, moved_from = (\<lambda>x. x), value_init = 0, sizeof = 4\<rparr>"

text \<open>A store with the container \<open>[1]\<close> at address 0 and the container \<open>[2, 3]\<close> at address 1.\<close>

definition two_vectors :: "nat store" where
  "two_vectors = (\<lambda>_. Vector_default)(0 := vec [1] 1, 1 := vec [2, 3] 2)"


section \<open>Properties of the model\<close>

subsection \<open>References to the arguments\<close>

lemma referent_Outside [simp]: "referent buf n (Outside a) = Some a"
  by (simp add: referent_def)

lemma referent_OwnElement:
  "referent buf n (OwnElement i) = (if i < n then map_option CopyOf (read buf i) else None)"
  by (simp add: referent_def split: option.split)

subsection \<open>Element operations\<close>

lemma fallible_Returns:
  "fallible w = Returns u w' \<Longrightarrow>
     copies w' = copies w \<and> moves w' = moves w \<and> ctors w' = ctors w \<and> dtors w' = dtors w
     \<and> alloc_budget w' = alloc_budget w \<and> (budget w = None \<longrightarrow> budget w' = None)"
  by (auto simp: fallible_def split: option.splits nat.splits)

lemma fallible_None: "budget w = None \<Longrightarrow> fallible w = Returns () w"
  by (simp add: fallible_def)

lemma fallible_defined: "fallible w \<noteq> Undefined"
  by (auto simp: fallible_def split: option.splits nat.splits)

lemma copy_construct_Returns:
  "copy_construct x w = Returns y w' \<Longrightarrow>
     y = x \<and> copies w' = copies w + 1 \<and> moves w' = moves w \<and> ctors w' = ctors w \<and> dtors w' = dtors w
     \<and> alloc_budget w' = alloc_budget w \<and> (budget w = None \<longrightarrow> budget w' = None)"
  by (auto simp: copy_construct_def split: outcome.splits dest: fallible_Returns)

lemma copy_construct_None:
  "budget w = None \<Longrightarrow> copy_construct x w = Returns x (w\<lparr>copies := copies w + 1\<rparr>)"
  by (simp add: copy_construct_def fallible_None)

lemma move_construct_Returns:
  "move_construct tr x w = Returns p w' \<Longrightarrow>
     p = (x, moved_from tr x) \<and> copies w' = copies w \<and> moves w' = moves w + 1 \<and> ctors w' = ctors w
     \<and> dtors w' = dtors w \<and> alloc_budget w' = alloc_budget w \<and> (budget w = None \<longrightarrow> budget w' = None)"
  by (auto simp: move_construct_def split: outcome.splits if_splits dest: fallible_Returns)

lemma move_construct_None:
  "budget w = None \<Longrightarrow> move_construct tr x w = Returns (x, moved_from tr x) (w\<lparr>moves := moves w + 1\<rparr>)"
  by (simp add: move_construct_def fallible_None)

lemma move_construct_nothrow:
  "is_nothrow_move_constructible tr \<Longrightarrow>
     move_construct tr x w = Returns (x, moved_from tr x) (w\<lparr>moves := moves w + 1\<rparr>)"
  by (simp add: move_construct_def)

lemma construct_Returns:
  "construct tr a w = Returns y w' \<Longrightarrow>
     y = value_of a
     \<and> copies w' = copies w + (case a of CopyOf _ \<Rightarrow> 1 | _ \<Rightarrow> 0)
     \<and> moves w' = moves w + (case a of MoveOf _ \<Rightarrow> 1 | _ \<Rightarrow> 0)
     \<and> ctors w' = ctors w + (case a of InPlace _ \<Rightarrow> 1 | _ \<Rightarrow> 0)
     \<and> dtors w' = dtors w \<and> alloc_budget w' = alloc_budget w \<and> (budget w = None \<longrightarrow> budget w' = None)"
  by (cases a)
     (auto simp: construct_def split: outcome.splits prod.splits
           dest: fallible_Returns copy_construct_Returns move_construct_Returns)

lemma construct_None:
  "budget w = None \<Longrightarrow> \<exists>w'. construct tr a w = Returns (value_of a) w'"
  by (cases a) (auto simp: construct_def fallible_None copy_construct_None move_construct_None)

subsection \<open>Slots\<close>

lemma read_Some: "read buf i = Some x \<longleftrightarrow> i < length buf \<and> buf ! i = Live x"
  by (auto simp: read_def split: slot.splits)

lemma read_None: "read buf i = None \<longleftrightarrow> (i < length buf \<longrightarrow> buf ! i = Raw)"
  by (auto simp: read_def split: slot.splits)

lemma read_update:
  "read (buf[i := s]) j =
     (if j = i \<and> i < length buf then (case s of Raw \<Rightarrow> None | Live x \<Rightarrow> Some x) else read buf j)"
  by (auto simp: read_def)

lemma construct_at_Returns:
  "construct_at tr a buf i w = Returns u (buf', w') \<Longrightarrow>
     i < length buf \<and> buf' = buf[i := Live (value_of a)] \<and> construct tr a w = Returns (value_of a) w'"
  by (auto simp: construct_at_def split: if_splits outcome.splits dest: construct_Returns)

lemma construct_at_Throws:
  "construct_at tr a buf i w = Throws e (buf', w') \<Longrightarrow> buf' = buf"
  by (auto simp: construct_at_def split: if_splits outcome.splits)

lemma destroy_at_Some:
  "destroy_at buf i w = Some (buf', w') \<Longrightarrow>
     read buf i \<noteq> None \<and> buf' = buf[i := Raw] \<and> w' = w\<lparr>dtors := dtors w + 1\<rparr>"
  by (auto simp: destroy_at_def split: option.splits)

subsection \<open>Destruction of a range\<close>

lemma destroy_n_Some:
  "destroy_n buf first n w = Some (buf', w') \<Longrightarrow>
     length buf' = length buf
     \<and> (\<forall>i. buf' ! i = (if first \<le> i \<and> i < first + n \<and> i < length buf then Raw else buf ! i))
     \<and> w' = w\<lparr>dtors := dtors w + n\<rparr>"
proof (induction buf first n w arbitrary: buf' w' rule: destroy_n.induct)
  case (1 buf first w)
  then show ?case by auto
next
  case (2 buf first n w)
  from "2.prems" obtain rd: "read buf first \<noteq> None"
    and rec: "destroy_n (buf[first := Raw]) (Suc first) n (w\<lparr>dtors := dtors w + 1\<rparr>) = Some (buf', w')"
    by (auto split: option.splits prod.splits dest: destroy_at_Some)
  have da: "destroy_at buf first w = Some (buf[first := Raw], w\<lparr>dtors := dtors w + 1\<rparr>)"
    using rd by (auto simp: destroy_at_def)
  note IH = "2.IH"[OF da refl rec]
  have lt: "first < length buf" using rd by (auto simp: read_def split: if_splits)
  show ?case using IH lt by (auto simp: nth_list_update)
qed

lemma destroy_n_total:
  "\<forall>i<n. read buf (first + i) \<noteq> None \<Longrightarrow> \<exists>buf'. destroy_n buf first n w = Some (buf', w\<lparr>dtors := dtors w + n\<rparr>)"
proof (induction n arbitrary: buf first w)
  case 0
  then show ?case by simp
next
  case (Suc n)
  from Suc.prems have rd: "read buf first \<noteq> None" by (metis add.right_neutral zero_less_Suc)
  have "\<forall>i<n. read (buf[first := Raw]) (Suc first + i) \<noteq> None"
  proof (intro allI impI)
    fix i assume "i < n"
    then have "read buf (first + Suc i) \<noteq> None" using Suc.prems by (meson Suc_less_eq)
    then show "read (buf[first := Raw]) (Suc first + i) \<noteq> None" by (simp add: read_update)
  qed
  from Suc.IH[OF this, of "w\<lparr>dtors := dtors w + 1\<rparr>"] rd show ?case
    by (auto simp: destroy_at_def)
qed

subsection \<open>Copying into raw storage\<close>

lemma uninitialized_copy_n_Returns:
  "uninitialized_copy_n src first n dst d w = Returns u (dst', w') \<Longrightarrow>
     length dst' = length dst
     \<and> (\<forall>i<n. d + i < length dst \<and> read dst' (d + i) = read src (first + i) \<and> read src (first + i) \<noteq> None)
     \<and> (\<forall>i. i < d \<or> d + n \<le> i \<longrightarrow> dst' ! i = dst ! i)"
proof (induction src first n dst d w arbitrary: dst' w' rule: uninitialized_copy_n.induct)
  case (1 src first dst d_first w)
  then show ?case by simp
next
  case (2 src first n dst d_first w)
  from "2.prems" obtain x w1 where
    rd: "read src first = Some x" and lt: "d_first < length dst"
    and cc: "copy_construct x w = Returns x w1"
    and rec: "uninitialized_copy_n src (Suc first) n (dst[d_first := Live x]) (Suc d_first) w1 = Returns u (dst', w')"
    by (auto split: option.splits if_splits outcome.splits prod.splits dest: copy_construct_Returns)
  note IH = "2.IH"[OF rd lt cc rec]
  show ?case
  proof (intro conjI allI impI)
    show "length dst' = length dst" using IH by simp
  next
    fix i assume "i < Suc n"
    show "d_first + i < length dst" using IH lt \<open>i < Suc n\<close> by (cases i) auto
    show "read dst' (d_first + i) = read src (first + i)"
    proof (cases i)
      case 0
      have "dst' ! d_first = (dst[d_first := Live x]) ! d_first" using IH by simp
      then show ?thesis using 0 rd lt IH by (simp add: read_def)
    next
      case (Suc j)
      then show ?thesis using IH \<open>i < Suc n\<close> by auto
    qed
    show "read src (first + i) \<noteq> None"
      using IH rd \<open>i < Suc n\<close> by (cases i) auto
  next
    fix i assume "i < d_first \<or> d_first + Suc n \<le> i"
    then show "dst' ! i = dst ! i" using IH by auto
  qed
qed

lemma uninitialized_copy_n_counters:
  "uninitialized_copy_n src first n dst d w = Returns u (dst', w') \<Longrightarrow>
     copies w' = copies w + n \<and> moves w' = moves w \<and> ctors w' = ctors w \<and> dtors w' = dtors w
     \<and> alloc_budget w' = alloc_budget w \<and> (budget w = None \<longrightarrow> budget w' = None)"
proof (induction src first n dst d w arbitrary: dst' w' rule: uninitialized_copy_n.induct)
  case (1 src first dst d_first w)
  then show ?case by simp
next
  case (2 src first n dst d_first w)
  from "2.prems" obtain x w1 where
    rd: "read src first = Some x" and lt: "d_first < length dst"
    and cc: "copy_construct x w = Returns x w1"
    and rec: "uninitialized_copy_n src (Suc first) n (dst[d_first := Live x]) (Suc d_first) w1 = Returns u (dst', w')"
    by (auto split: option.splits if_splits outcome.splits prod.splits dest: copy_construct_Returns)
  from "2.IH"[OF rd lt cc rec] copy_construct_Returns[OF cc] show ?case by simp
qed

lemma uninitialized_copy_n_total:
  "\<forall>i<n. read src (first + i) \<noteq> None \<Longrightarrow> d + n \<le> length dst \<Longrightarrow> budget w = None \<Longrightarrow>
     \<exists>dst' w'. uninitialized_copy_n src first n dst d w = Returns () (dst', w')"
proof (induction n arbitrary: first dst d w)
  case 0
  then show ?case by simp
next
  case (Suc n)
  from Suc.prems(1) obtain x where rd: "read src first = Some x"
    by (metis add.right_neutral not_Some_eq zero_less_Suc)
  have 1: "\<forall>i<n. read src (Suc first + i) \<noteq> None"
  proof (intro allI impI)
    fix i assume "i < n"
    then have "read src (first + Suc i) \<noteq> None" using Suc.prems(1) by (meson Suc_less_eq)
    then show "read src (Suc first + i) \<noteq> None" by simp
  qed
  have 2: "Suc d + n \<le> length (dst[d := Live x])" using Suc.prems(2) by simp
  have 3: "budget (w\<lparr>copies := copies w + 1\<rparr>) = None" using Suc.prems(3) by simp
  from Suc.IH[OF 1 2 3] rd Suc.prems(2,3) show ?case
    by (auto simp: copy_construct_None)
qed

lemma uninitialized_copy_n_Throws:
  "uninitialized_copy_n src first n dst d w = Throws e (dst', w') \<Longrightarrow>
     \<forall>i<n. d + i < length dst \<longrightarrow> dst ! (d + i) = Raw \<Longrightarrow> dst' = dst"
proof (induction src first n dst d w arbitrary: dst' w' rule: uninitialized_copy_n.induct)
  case (1 src first dst d_first w)
  then show ?case by simp
next
  case (2 src first n dst d_first w)
  from "2.prems"(1) obtain x where rd: "read src first = Some x" and lt: "d_first < length dst"
    by (auto split: option.splits if_splits)
  have raw: "dst ! d_first = Raw" using "2.prems"(2) lt by (metis add.right_neutral zero_less_Suc)
  show ?case
  proof (cases "copy_construct x w")
    case (Returns y w1)
    then have y: "y = x" by (auto dest: copy_construct_Returns)
    from "2.prems"(1) rd lt Returns y obtain dst1 w2 where
      rec: "uninitialized_copy_n src (Suc first) n (dst[d_first := Live x]) (Suc d_first) w1 = Throws e (dst1, w2)"
      and res: "dst' = dst1[d_first := Raw]"
      by (auto split: outcome.splits prod.splits)
    have "\<forall>i<n. Suc d_first + i < length (dst[d_first := Live x]) \<longrightarrow> dst[d_first := Live x] ! (Suc d_first + i) = Raw"
    proof (intro allI impI)
      fix i assume "i < n" "Suc d_first + i < length (dst[d_first := Live x])"
      then have "dst ! (d_first + Suc i) = Raw" using "2.prems"(2) by (metis Suc_less_eq add_Suc_right add_Suc length_list_update)
      then show "dst[d_first := Live x] ! (Suc d_first + i) = Raw" by simp
    qed
    from "2.IH"[OF rd lt Returns[unfolded y] rec this] have "dst1 = dst[d_first := Live x]" .
    then show ?thesis using res raw by (metis list_update_id list_update_overwrite)
  next
    case (Throws e1 w1)
    with "2.prems"(1) rd lt show ?thesis by auto
  next
    case Undefined
    with "2.prems"(1) rd lt show ?thesis by auto
  qed
qed

subsection \<open>Moving into raw storage\<close>

lemma uninitialized_move_n_Returns:
  "uninitialized_move_n tr src first n dst d w = Returns u (src', dst', w') \<Longrightarrow>
     length dst' = length dst \<and> length src' = length src
     \<and> (\<forall>i<n. d + i < length dst \<and> read dst' (d + i) = read src (first + i) \<and> read src (first + i) \<noteq> None)
     \<and> (\<forall>i. i < d \<or> d + n \<le> i \<longrightarrow> dst' ! i = dst ! i)
     \<and> (\<forall>i. (read src' i = None) = (read src i = None))
     \<and> (\<forall>i. i < first \<or> first + n \<le> i \<longrightarrow> src' ! i = src ! i)"
proof (induction tr src first n dst d w arbitrary: src' dst' w' rule: uninitialized_move_n.induct)
  case (1 tr src first dst d_first w)
  then show ?case by simp
next
  case (2 tr src first n dst d_first w)
  from "2.prems" obtain x w1 where
    rd: "read src first = Some x" and lt: "d_first < length dst"
    and cc: "move_construct tr x w = Returns (x, moved_from tr x) w1"
    and rec: "uninitialized_move_n tr (src[first := Live (moved_from tr x)]) (Suc first) n
                (dst[d_first := Live x]) (Suc d_first) w1 = Returns u (src', dst', w')"
    by (auto split: option.splits if_splits outcome.splits prod.splits dest: move_construct_Returns)
  note IH = "2.IH"[OF rd lt cc refl rec]
  have ltf: "first < length src" using rd by (simp add: read_Some)
  show ?case
  proof (intro conjI allI impI)
    show "length dst' = length dst" using IH by simp
    show "length src' = length src" using IH by simp
  next
    fix i assume "i < Suc n"
    show "d_first + i < length dst" using IH lt \<open>i < Suc n\<close> by (cases i) auto
    show "read dst' (d_first + i) = read src (first + i)"
    proof (cases i)
      case 0
      have "dst' ! d_first = (dst[d_first := Live x]) ! d_first" using IH by simp
      then show ?thesis using 0 rd lt IH by (simp add: read_def)
    next
      case (Suc j)
      then have "read dst' (Suc d_first + j) = read (src[first := Live (moved_from tr x)]) (Suc first + j)"
        using IH \<open>i < Suc n\<close> by auto
      then show ?thesis using Suc by (simp add: read_update)
    qed
    show "read src (first + i) \<noteq> None"
    proof (cases i)
      case 0
      then show ?thesis using rd by simp
    next
      case (Suc j)
      then have "read (src[first := Live (moved_from tr x)]) (Suc first + j) \<noteq> None"
        using IH \<open>i < Suc n\<close> by auto
      then show ?thesis using Suc by (simp add: read_update)
    qed
  next
    fix i assume "i < d_first \<or> d_first + Suc n \<le> i"
    then show "dst' ! i = dst ! i" using IH by auto
  next
    fix i
    have "(read src' i = None) = (read (src[first := Live (moved_from tr x)]) i = None)" using IH by simp
    then show "(read src' i = None) = (read src i = None)" using rd by (auto simp: read_update)
  next
    fix i assume "i < first \<or> first + Suc n \<le> i"
    then show "src' ! i = src ! i" using IH by auto
  qed
qed

lemma uninitialized_move_n_counters:
  "uninitialized_move_n tr src first n dst d w = Returns u (src', dst', w') \<Longrightarrow>
     copies w' = copies w \<and> moves w' = moves w + n \<and> ctors w' = ctors w \<and> dtors w' = dtors w
     \<and> alloc_budget w' = alloc_budget w \<and> (budget w = None \<longrightarrow> budget w' = None)"
proof (induction tr src first n dst d w arbitrary: src' dst' w' rule: uninitialized_move_n.induct)
  case (1 tr src first dst d_first w)
  then show ?case by simp
next
  case (2 tr src first n dst d_first w)
  from "2.prems" obtain x w1 where
    rd: "read src first = Some x" and lt: "d_first < length dst"
    and cc: "move_construct tr x w = Returns (x, moved_from tr x) w1"
    and rec: "uninitialized_move_n tr (src[first := Live (moved_from tr x)]) (Suc first) n
                (dst[d_first := Live x]) (Suc d_first) w1 = Returns u (src', dst', w')"
    by (auto split: option.splits if_splits outcome.splits prod.splits dest: move_construct_Returns)
  from "2.IH"[OF rd lt cc refl rec] move_construct_Returns[OF cc] show ?case by simp
qed

lemma uninitialized_move_n_total:
  "\<forall>i<n. read src (first + i) \<noteq> None \<Longrightarrow> d + n \<le> length dst \<Longrightarrow>
   budget w = None \<or> is_nothrow_move_constructible tr \<Longrightarrow>
     \<exists>src' dst' w'. uninitialized_move_n tr src first n dst d w = Returns () (src', dst', w')"
proof (induction n arbitrary: src first dst d w)
  case 0
  then show ?case by simp
next
  case (Suc n)
  from Suc.prems(1) obtain x where rd: "read src first = Some x"
    by (metis add.right_neutral not_Some_eq zero_less_Suc)
  have 1: "\<forall>i<n. read (src[first := Live (moved_from tr x)]) (Suc first + i) \<noteq> None"
  proof (intro allI impI)
    fix i assume "i < n"
    then have "read src (first + Suc i) \<noteq> None" using Suc.prems(1) by (meson Suc_less_eq)
    then show "read (src[first := Live (moved_from tr x)]) (Suc first + i) \<noteq> None" by (simp add: read_update)
  qed
  have 2: "Suc d + n \<le> length (dst[d := Live x])" using Suc.prems(2) by simp
  have mc: "move_construct tr x w = Returns (x, moved_from tr x) (w\<lparr>moves := moves w + 1\<rparr>)"
    using Suc.prems(3) by (auto simp: move_construct_None move_construct_nothrow)
  have 3: "budget (w\<lparr>moves := moves w + 1\<rparr>) = None \<or> is_nothrow_move_constructible tr"
    using Suc.prems(3) by auto
  from Suc.IH[OF 1 2 3] rd Suc.prems(2) mc show ?case by auto
qed

lemma uninitialized_move_n_nothrow:
  "is_nothrow_move_constructible tr \<Longrightarrow> uninitialized_move_n tr src first n dst d w \<noteq> Throws e s"
proof (induction tr src first n dst d w arbitrary: s rule: uninitialized_move_n.induct)
  case (1 tr src first dst d_first w)
  then show ?case by simp
next
  case (2 tr src first n dst d_first w)
  show ?case
  proof (cases "read src first")
    case None
    then show ?thesis by simp
  next
    case (Some x)
    show ?thesis
    proof (cases "d_first < length dst")
      case True
      have mc: "move_construct tr x w = Returns (x, moved_from tr x) (w\<lparr>moves := moves w + 1\<rparr>)"
        using "2.prems" by (simp add: move_construct_nothrow)
      from "2.IH"[OF Some True mc refl "2.prems"] Some True mc show ?thesis
        by (auto split: outcome.splits prod.splits)
    next
      case False
      then show ?thesis using Some by simp
    qed
  qed
qed

lemma invariant_iff:
  "invariant v \<longleftrightarrow>
     size' v \<le> capacity' (data' v) \<and> length (buffer' (data' v)) = capacity' (data' v)
     \<and> (\<forall>i<capacity' (data' v). (read (buffer' (data' v)) i \<noteq> None) = (i < size' v))"
proof -
  { fix buf :: "'a slot list" and n
    assume n: "n \<le> length buf"
    have "list_all (\<lambda>s. s \<noteq> Raw) (take n buf) \<and> list_all (\<lambda>s. s = Raw) (drop n buf)
          \<longleftrightarrow> (\<forall>i<length buf. (read buf i \<noteq> None) = (i < n))" (is "?L \<longleftrightarrow> ?R")
    proof
      assume L: ?L
      show ?R
      proof (intro allI impI)
        fix i assume i: "i < length buf"
        show "(read buf i \<noteq> None) = (i < n)"
        proof (cases "i < n")
          case True
          then have "take n buf ! i \<noteq> Raw" using L i n by (simp add: list_all_length)
          then show ?thesis using True i by (simp add: read_None)
        next
          case False
          then have "i - n < length (drop n buf)" using i n by simp
          then have "drop n buf ! (i - n) = Raw" using L by (simp only: list_all_length)
          then show ?thesis using False i n by (simp add: read_None)
        qed
      qed
    next
      assume R: ?R
      have "list_all (\<lambda>s. s \<noteq> Raw) (take n buf)"
        unfolding list_all_length
      proof (intro allI impI)
        fix i assume "i < length (take n buf)"
        then have "i < n" "i < length buf" using n by auto
        then show "take n buf ! i \<noteq> Raw" using R by (auto simp: read_None)
      qed
      moreover have "list_all (\<lambda>s. s = Raw) (drop n buf)"
        unfolding list_all_length
      proof (intro allI impI)
        fix i assume "i < length (drop n buf)"
        then have "n + i < length buf" by auto
        moreover have "\<not> n + i < n" by simp
        ultimately have "read buf (n + i) = None" using R by blast
        then show "drop n buf ! i = Raw" using \<open>n + i < length buf\<close> n by (simp add: read_None)
      qed
      ultimately show ?L by simp
    qed }
  then show ?thesis unfolding invariant_def by (metis (no_types, lifting))
qed

lemma elements_eq_iff:
  "elements v' = elements v \<longleftrightarrow> size' v' = size' v \<and> (\<forall>i<size' v. subscript v' i = subscript v i)"
proof
  assume e: "elements v' = elements v"
  then have "length (elements v') = length (elements v)" by simp
  then have s: "size' v' = size' v" by (simp add: elements_def)
  have "\<forall>i<size' v. subscript v' i = subscript v i"
  proof (intro allI impI)
    fix i assume "i < size' v"
    then have "elements v' ! i = subscript v' i" "elements v ! i = subscript v i"
      using s by (simp_all add: elements_def)
    then show "subscript v' i = subscript v i" using e by simp
  qed
  then show "size' v' = size' v \<and> (\<forall>i<size' v. subscript v' i = subscript v i)" using s by simp
next
  assume "size' v' = size' v \<and> (\<forall>i<size' v. subscript v' i = subscript v i)"
  then show "elements v' = elements v" by (simp add: elements_def)
qed

lemma elements_append:
  assumes "size' v' = size' v + 1" "\<forall>i<size' v. subscript v' i = subscript v i"
    "subscript v' (size' v) = y"
  shows "elements v' = elements v @ [y]"
  using assms by (simp add: elements_def)

lemma RawMemory_exact_Returns:
  "RawMemory_exact n w = Returns m w' \<Longrightarrow>
     m = \<lparr>buffer' = replicate n Raw, capacity' = n\<rparr>
     \<and> copies w' = copies w \<and> moves w' = moves w \<and> ctors w' = ctors w \<and> dtors w' = dtors w
     \<and> budget w' = budget w \<and> (alloc_budget w = None \<longrightarrow> alloc_budget w' = None)"
  by (auto simp: RawMemory_exact_def Allocate_exact_def split: outcome.splits if_splits option.splits nat.splits)

lemma RawMemory_exact_None:
  "alloc_budget w = None \<Longrightarrow> RawMemory_exact n w = Returns \<lparr>buffer' = replicate n Raw, capacity' = n\<rparr> w"
  by (auto simp: RawMemory_exact_def Allocate_exact_def)

lemma relocate_Returns:
  assumes "relocate tr src first n dst d w = Returns u (src', dst', w')"
  shows "length dst' = length dst \<and> length src' = length src
    \<and> (\<forall>i<n. d + i < length dst \<and> read dst' (d + i) = read src (first + i) \<and> read src (first + i) \<noteq> None)
    \<and> (\<forall>i. i < d \<or> d + n \<le> i \<longrightarrow> dst' ! i = dst ! i)
    \<and> (\<forall>i. (read src' i = None) = (read src i = None))
    \<and> (\<forall>i. i < first \<or> first + n \<le> i \<longrightarrow> src' ! i = src ! i)"
proof (cases "moves_on_relocation tr")
  case True
  with assms[unfolded relocate_def] have "uninitialized_move_n tr src first n dst d w = Returns u (src', dst', w')"
    by (simp add: moves_on_relocation_def)
  from uninitialized_move_n_Returns[OF this] show ?thesis .
next
  case False
  with assms[unfolded relocate_def] have c: "uninitialized_copy_n src first n dst d w = Returns u (dst', w')" and s: "src' = src"
    by (auto simp: const_source_def moves_on_relocation_def split: outcome.splits prod.splits)
  from uninitialized_copy_n_Returns[OF c] s show ?thesis by simp
qed

lemma relocate_counters:
  assumes "relocate tr src first n dst d w = Returns u (src', dst', w')"
  shows "copies w' = copies w + (if moves_on_relocation tr then 0 else n) \<and> moves w' = moves w + (if moves_on_relocation tr then n else 0)
    \<and> ctors w' = ctors w \<and> dtors w' = dtors w \<and> alloc_budget w' = alloc_budget w
    \<and> (budget w = None \<longrightarrow> budget w' = None)"
proof (cases "moves_on_relocation tr")
  case True
  with assms[unfolded relocate_def] have "uninitialized_move_n tr src first n dst d w = Returns u (src', dst', w')"
    by (simp add: moves_on_relocation_def)
  from uninitialized_move_n_counters[OF this] True show ?thesis by simp
next
  case False
  with assms[unfolded relocate_def] have c: "uninitialized_copy_n src first n dst d w = Returns u (dst', w')"
    by (auto simp: const_source_def moves_on_relocation_def split: outcome.splits prod.splits)
  from uninitialized_copy_n_counters[OF c] False show ?thesis by simp
qed

lemma relocate_total:
  assumes "\<forall>i<n. read src (first + i) \<noteq> None" "d + n \<le> length dst" "budget w = None"
  shows "\<exists>src' dst' w'. relocate tr src first n dst d w = Returns () (src', dst', w')"
proof (cases "moves_on_relocation tr")
  case True
  then show ?thesis using uninitialized_move_n_total[OF assms(1,2), of w tr] assms(3)
    by (simp add: relocate_def moves_on_relocation_def)
next
  case False
  from uninitialized_copy_n_total[OF assms] obtain dst' w' where
    "uninitialized_copy_n src first n dst d w = Returns () (dst', w')" by blast
  then show ?thesis using False by (simp add: const_source_def relocate_def moves_on_relocation_def)
qed

lemma relocate_Throws:
  assumes "relocate tr src first n dst d w = Throws e (src', dst', w')"
    and "is_nothrow_move_constructible tr \<or> is_copy_constructible tr"
  shows "src' = src"
proof (cases "moves_on_relocation tr")
  case True
  then show ?thesis using assms uninitialized_move_n_nothrow[of tr src first n dst d w e "(src', dst', w')"]
    by (auto simp: relocate_def moves_on_relocation_def)
next
  case False
  then show ?thesis using assms
    by (auto simp: const_source_def relocate_def moves_on_relocation_def split: outcome.splits prod.splits)
qed

lemma EmplaceBack_grow_inv:
  assumes r: "EmplaceBack tr a v w = Returns k (v', w')" and full: "size' v = Capacity v"
  shows "\<exists>new_data w1 new1 w2 old new w3 old'.
     RawMemory_exact (if Capacity v = 0 then 1 else size' v * 2) w = Returns new_data w1
     \<and> construct_at tr a (buffer' new_data) (size' v) w1 = Returns () (new1, w2)
     \<and> relocate tr (buffer' (data' v)) 0 (size' v) new1 0 w2 = Returns () (old, new, w3)
     \<and> destroy_n old 0 (size' v) w3 = Some (old', w')
     \<and> buffer' (data' v') = new \<and> capacity' (data' v') = capacity' new_data \<and> size' v' = size' v + 1
     \<and> k = size' v"
  using r full unfolding EmplaceBack_def relocate_def[symmetric]
  by (simp add: RawMemory_Swap_def split: outcome.split_asm prod.split_asm option.split_asm if_split_asm)
     auto

lemma EmplaceBack_grow_Returns:
  assumes inv: "invariant v" and full: "size' v = Capacity v"
    and r: "EmplaceBack tr a v w = Returns k (v', w')"
  shows "size' v' = size' v + 1 \<and> k = size' v \<and> invariant v'
     \<and> (\<forall>i<size' v. subscript v' i = subscript v i) \<and> subscript v' (size' v) = Some (value_of a)
     \<and> Capacity v' = max 1 (size' v * 2)"
proof -
  define c where "c = (if Capacity v = 0 then 1 else size' v * 2)"
  from EmplaceBack_grow_inv[OF r full] obtain new_data w1 new1 w2 old new w3 old' where
    al: "RawMemory_exact c w = Returns new_data w1"
    and ca: "construct_at tr a (buffer' new_data) (size' v) w1 = Returns () (new1, w2)"
    and re: "relocate tr (buffer' (data' v)) 0 (size' v) new1 0 w2 = Returns () (old, new, w3)"
    and de: "destroy_n old 0 (size' v) w3 = Some (old', w')"
    and v': "buffer' (data' v') = new" "capacity' (data' v') = capacity' new_data" "size' v' = size' v + 1"
    and k: "k = size' v"
    unfolding c_def by blast
  from RawMemory_exact_Returns[OF al] have nd: "new_data = \<lparr>buffer' = replicate c Raw, capacity' = c\<rparr>" by simp
  from construct_at_Returns[OF ca] nd have
    lt: "size' v < c" and new1: "new1 = (replicate c Raw)[size' v := Live (value_of a)]" by simp_all
  note R = relocate_Returns[OF re]
  have len: "length new = c" using R new1 by simp
  have lo: "\<forall>i<size' v. read new i = read (buffer' (data' v)) i" using R by simp
  have hi: "\<forall>i. size' v \<le> i \<longrightarrow> new ! i = new1 ! i" using R by simp
  have at: "read new (size' v) = Some (value_of a)" using hi new1 lt len by (simp add: read_def)
  have raw: "\<forall>i<c. size' v < i \<longrightarrow> read new i = None" using hi new1 len by (simp add: read_def)
  have cmax: "c = max 1 (size' v * 2)" using full by (auto simp: c_def)
  have inv': "invariant v'"
    unfolding invariant_iff
  proof (intro conjI allI impI)
    show "size' v' \<le> capacity' (data' v')" using v' nd lt by simp
    show "length (buffer' (data' v')) = capacity' (data' v')" using v' nd len by simp
  next
    fix i assume i: "i < capacity' (data' v')"
    then have ic: "i < c" using v' nd by simp
    consider "i < size' v" | "i = size' v" | "size' v < i" by linarith
    then show "(read (buffer' (data' v')) i \<noteq> None) = (i < size' v')"
    proof cases
      case 1
      then have "read new i = read (buffer' (data' v)) i" using lo by simp
      moreover have "read (buffer' (data' v)) i \<noteq> None" using inv 1 by (simp add: invariant_iff)
      ultimately show ?thesis using v' 1 by simp
    next
      case 2
      then show ?thesis using at v' by simp
    next
      case 3
      then show ?thesis using raw ic v' by simp
    qed
  qed
  have keep: "\<forall>i<size' v. subscript v' i = subscript v i"
    using lo v' nd lt inv by (auto simp: subscript_def subscript_ok_def invariant_iff)
  have last: "subscript v' (size' v) = Some (value_of a)"
    using at v' nd lt by (simp add: subscript_def subscript_ok_def)
  show ?thesis using v' k inv' keep last cmax nd by (simp add: Capacity_def)
qed

lemma EmplaceBack_room_inv:
  assumes r: "EmplaceBack tr a v w = Returns k (v', w')" and room: "size' v \<noteq> Capacity v"
  shows "\<exists>buf. construct_at tr a (buffer' (data' v)) (size' v) w = Returns () (buf, w')
     \<and> v' = v\<lparr>data' := (data' v)\<lparr>buffer' := buf\<rparr>, size' := size' v + 1\<rparr> \<and> k = size' v"
  using r room unfolding EmplaceBack_def
  by (simp split: outcome.split_asm prod.split_asm option.split_asm if_split_asm) auto

lemma EmplaceBack_room_Returns:
  assumes inv: "invariant v" and room: "size' v \<noteq> Capacity v"
    and r: "EmplaceBack tr a v w = Returns k (v', w')"
  shows "size' v' = size' v + 1 \<and> k = size' v \<and> invariant v'
     \<and> (\<forall>i<size' v. subscript v' i = subscript v i) \<and> subscript v' (size' v) = Some (value_of a)
     \<and> Capacity v' = Capacity v"
proof -
  from EmplaceBack_room_inv[OF r room] obtain buf where
    ca: "construct_at tr a (buffer' (data' v)) (size' v) w = Returns () (buf, w')"
    and v': "v' = v\<lparr>data' := (data' v)\<lparr>buffer' := buf\<rparr>, size' := size' v + 1\<rparr>"
    and k: "k = size' v"
    by blast
  from construct_at_Returns[OF ca] have
    lt: "size' v < length (buffer' (data' v))" and buf: "buf = (buffer' (data' v))[size' v := Live (value_of a)]"
    by simp_all
  have inv': "invariant v'"
    using inv lt unfolding invariant_iff v' buf by (auto simp: read_update)
  have keep: "\<forall>i<size' v. subscript v' i = subscript v i"
    using inv unfolding v' buf by (auto simp: subscript_def subscript_ok_def read_update)
  have last: "subscript v' (size' v) = Some (value_of a)"
    using inv lt unfolding v' buf by (auto simp: subscript_def subscript_ok_def read_update invariant_iff)
  show ?thesis using k inv' keep last by (simp add: v' Capacity_def)
qed

lemma EmplaceBack_Returns:
  assumes inv: "invariant v" and r: "EmplaceBack tr a v w = Returns k (v', w')"
  shows "size' v' = size' v + 1 \<and> k = size' v \<and> invariant v'
     \<and> (\<forall>i<size' v. subscript v' i = subscript v i) \<and> subscript v' (size' v) = Some (value_of a)
     \<and> Capacity v' = (if size' v = Capacity v then max 1 (size' v * 2) else Capacity v)"
  using EmplaceBack_grow_Returns[OF inv _ r] EmplaceBack_room_Returns[OF inv _ r]
  by (cases "size' v = Capacity v") simp_all

lemma construct_at_None:
  "budget w = None \<Longrightarrow> i < length buf \<Longrightarrow>
     \<exists>w'. construct_at tr a buf i w = Returns () (buf[i := Live (value_of a)], w')"
  using construct_None[of w tr a] by (auto simp: construct_at_def)

lemma construct_at_counters:
  "construct_at tr a buf i w = Returns u (buf', w') \<Longrightarrow>
     copies w' = copies w + (case a of CopyOf _ \<Rightarrow> 1 | _ \<Rightarrow> 0)
     \<and> moves w' = moves w + (case a of MoveOf _ \<Rightarrow> 1 | _ \<Rightarrow> 0)
     \<and> ctors w' = ctors w + (case a of InPlace _ \<Rightarrow> 1 | _ \<Rightarrow> 0)
     \<and> dtors w' = dtors w \<and> alloc_budget w' = alloc_budget w \<and> (budget w = None \<longrightarrow> budget w' = None)"
  using construct_Returns[of tr a w "value_of a" w'] by (auto dest!: construct_at_Returns)

lemma invariant_live: "invariant v \<Longrightarrow> \<forall>i<size' v. read (buffer' (data' v)) (0 + i) \<noteq> None"
  by (simp add: invariant_iff)

lemma EmplaceBack_counters:
  assumes r: "EmplaceBack tr a v w = Returns k (v', w')"
  shows "copies w' = copies w + (case a of CopyOf _ \<Rightarrow> 1 | _ \<Rightarrow> 0)
            + (if size' v = Capacity v \<and> \<not> moves_on_relocation tr then size' v else 0)
     \<and> moves w' = moves w + (case a of MoveOf _ \<Rightarrow> 1 | _ \<Rightarrow> 0)
            + (if size' v = Capacity v \<and> moves_on_relocation tr then size' v else 0)
     \<and> ctors w' = ctors w + (case a of InPlace _ \<Rightarrow> 1 | _ \<Rightarrow> 0)
     \<and> dtors w' = dtors w + (if size' v = Capacity v then size' v else 0)
     \<and> (alloc_budget w = None \<longrightarrow> alloc_budget w' = None) \<and> (budget w = None \<longrightarrow> budget w' = None)"
proof (cases "size' v = Capacity v")
  case True
  from EmplaceBack_grow_inv[OF r True] obtain new_data w1 new1 w2 old new w3 old' where
    al: "RawMemory_exact (if Capacity v = 0 then 1 else size' v * 2) w = Returns new_data w1"
    and ca: "construct_at tr a (buffer' new_data) (size' v) w1 = Returns () (new1, w2)"
    and re: "relocate tr (buffer' (data' v)) 0 (size' v) new1 0 w2 = Returns () (old, new, w3)"
    and de: "destroy_n old 0 (size' v) w3 = Some (old', w')"
    by blast
  from RawMemory_exact_Returns[OF al] construct_at_counters[OF ca] relocate_counters[OF re]
    destroy_n_Some[OF de] True
  show ?thesis by simp
next
  case False
  from EmplaceBack_room_inv[OF r False] obtain buf where
    ca: "construct_at tr a (buffer' (data' v)) (size' v) w = Returns () (buf, w')" by blast
  from construct_at_counters[OF ca] False show ?thesis by simp
qed

lemma EmplaceBack_total:
  assumes inv: "invariant v" and nf: "budget w = None" "alloc_budget w = None"
  shows "\<exists>k v' w'. EmplaceBack tr a v w = Returns k (v', w')"
proof (cases "size' v = Capacity v")
  case True
  define c where "c = (if Capacity v = 0 then 1 else size' v * 2)"
  have lt: "size' v < c" using True by (auto simp: c_def)
  have al: "RawMemory_exact c w = Returns \<lparr>buffer' = replicate c (Raw :: 'a slot), capacity' = c\<rparr> w"
    using nf by (simp add: RawMemory_exact_None)
  from construct_at_None[OF nf(1), of "size' v" "replicate c Raw" tr a] lt obtain w2 where
    ca: "construct_at tr a (replicate c Raw) (size' v) w = Returns () ((replicate c Raw)[size' v := Live (value_of a)], w2)"
    by auto
  from construct_at_counters[OF ca] nf have b2: "budget w2 = None" by simp
  have "0 + size' v \<le> length ((replicate c Raw)[size' v := Live (value_of a)])" using lt by simp
  from relocate_total[OF invariant_live[OF inv] this b2] obtain old new w3 where
    re: "relocate tr (buffer' (data' v)) 0 (size' v) ((replicate c Raw)[size' v := Live (value_of a)]) 0 w2
          = Returns () (old, new, w3)" by blast
  from relocate_Returns[OF re] invariant_live[OF inv] have "\<forall>i<size' v. read old (0 + i) \<noteq> None" by simp
  from destroy_n_total[OF this] obtain old' where
    de: "destroy_n old 0 (size' v) w3 = Some (old', w3\<lparr>dtors := dtors w3 + size' v\<rparr>)" by blast
  show ?thesis
    unfolding EmplaceBack_def relocate_def[symmetric]
    using True al ca re de lt by (simp add: c_def[symmetric] plus_ok_def RawMemory_Swap_def)
next
  case False
  then have lt: "size' v < length (buffer' (data' v))" using inv by (simp add: invariant_def Capacity_def)
  from construct_at_None[OF nf(1) lt, of tr a] obtain w1 where
    "construct_at tr a (buffer' (data' v)) (size' v) w = Returns () ((buffer' (data' v))[size' v := Live (value_of a)], w1)"
    by blast
  then show ?thesis
    unfolding EmplaceBack_def using False inv by (simp add: plus_ok_def invariant_def)
qed

lemma EmplaceBack_Throws:
  assumes r: "EmplaceBack tr a v w = Throws e (v', w')"
    and ty: "is_nothrow_move_constructible tr \<or> is_copy_constructible tr"
  shows "v' = v"
  using r unfolding EmplaceBack_def relocate_def[symmetric]
  by (auto simp: RawMemory_Swap_def dest!: relocate_Throws[OF _ ty]
           split: outcome.split_asm prod.split_asm option.split_asm if_split_asm)

subsection \<open>Requests that do not wrap\<close>

lemma byte_count_exact:
  assumes "0 < sizeof tr" "n * sizeof tr \<le> SIZE_MAX"
  shows "byte_count tr n div sizeof tr = n"
  using assms by (simp add: byte_count_def)

lemma byte_count_short: "byte_count tr n div sizeof tr \<le> n"
proof (cases "sizeof tr = 0")
  case True
  then show ?thesis by simp
next
  case False
  have "byte_count tr n \<le> n * sizeof tr" by (simp add: byte_count_def)
  then have "byte_count tr n div sizeof tr \<le> (n * sizeof tr) div sizeof tr" by (rule div_le_mono)
  with False show ?thesis by simp
qed

text \<open>Evaluation of the byte count in binary arithmetic.\<close>

lemma byte_count_code [code]:
  "byte_count tr n = nat ((int n * int (sizeof tr)) mod 2 ^ 64)"
  by (simp add: byte_count_def SIZE_MAX_def nat_mod_distrib nat_mult_distrib nat_power_eq)

lemma RawMemory_new_Returns:
  "RawMemory_new tr n w = Returns m w' \<Longrightarrow>
     m = \<lparr>buffer' = replicate (byte_count tr n div sizeof tr) Raw, capacity' = n\<rparr>
     \<and> copies w' = copies w \<and> moves w' = moves w \<and> ctors w' = ctors w \<and> dtors w' = dtors w
     \<and> budget w' = budget w \<and> (alloc_budget w = None \<longrightarrow> alloc_budget w' = None)"
  by (auto simp: RawMemory_new_def Allocate_def byte_count_def
           split: outcome.splits if_splits option.splits nat.splits)

lemma RawMemory_new_exact:
  assumes "0 < sizeof tr" "n * sizeof tr \<le> SIZE_MAX"
  shows "RawMemory_new tr n w = RawMemory_exact n w"
  unfolding RawMemory_new_def RawMemory_exact_def Allocate_def Allocate_exact_def
    byte_count_exact[OF assms]
  by (rule refl)

text \<open>
  The requests of the container's own growth do not wrap when the block it holds has at
  most \<open>PTRDIFF_MAX\<close> bytes, as every block in memory has.
\<close>

lemma growth_request_exact:
  assumes "0 < sizeof tr" "sizeof tr \<le> 2 ^ 63 - 1" "size' v * sizeof tr \<le> 2 ^ 63 - 1"
  shows "RawMemory_new tr (if Capacity v = 0 then 1 else size' v * 2) w
       = RawMemory_exact (if Capacity v = 0 then 1 else size' v * 2) w"
proof -
  have "(if Capacity v = 0 then 1 else size' v * 2) * sizeof tr \<le> SIZE_MAX"
    using assms by (simp add: SIZE_MAX_def)
  from RawMemory_new_exact[OF assms(1) this] show ?thesis .
qed

subsection \<open>Reserve\<close>

lemma Reserve_noop: "new_capacity \<le> Capacity v \<Longrightarrow> Reserve tr new_capacity v w = Returns () (v, w)"
  by (simp add: Reserve_def Capacity_def)

lemma Reserve_inv:
  assumes r: "Reserve tr n v w = Returns u (v', w')" and gt: "Capacity v < n"
  shows "\<exists>new_data w1 old new w3 old'.
     RawMemory_new tr n w = Returns new_data w1
     \<and> relocate tr (buffer' (data' v)) 0 (size' v) (buffer' new_data) 0 w1 = Returns () (old, new, w3)
     \<and> destroy_n old 0 (size' v) w3 = Some (old', w')
     \<and> buffer' (data' v') = new \<and> capacity' (data' v') = capacity' new_data \<and> size' v' = size' v"
  using r gt unfolding Reserve_def relocate_def[symmetric] Capacity_def
  by (simp add: RawMemory_Swap_def split: outcome.split_asm prod.split_asm option.split_asm if_split_asm)
     auto

text \<open>What a returning \<open>Reserve\<close> beyond the capacity has done, also after a wrap.\<close>

lemma Reserve_Returns_elements:
  assumes inv: "invariant v" and gt: "Capacity v < n"
    and r: "Reserve tr n v w = Returns u (v', w')"
  shows "size' v' = size' v \<and> Capacity v' = n \<and> elements v' = elements v"
proof -
  from Reserve_inv[OF r gt] obtain new_data w1 old new w3 old' where
    al: "RawMemory_new tr n w = Returns new_data w1"
    and re: "relocate tr (buffer' (data' v)) 0 (size' v) (buffer' new_data) 0 w1 = Returns () (old, new, w3)"
    and v': "buffer' (data' v') = new" "capacity' (data' v') = capacity' new_data" "size' v' = size' v"
    by blast
  from RawMemory_new_Returns[OF al] have nd: "capacity' new_data = n" by simp
  note R = relocate_Returns[OF re]
  have sz: "size' v < n" using inv gt by (simp add: invariant_def Capacity_def)
  have lo: "\<forall>i<size' v. read new i = read (buffer' (data' v)) i" using R by simp
  have "\<forall>i<size' v. subscript v' i = subscript v i"
    using lo v' nd sz inv by (auto simp: subscript_def subscript_ok_def invariant_iff)
  then have "elements v' = elements v" using v' by (simp add: elements_eq_iff)
  then show ?thesis using v' nd by (simp add: Capacity_def)
qed

lemma Reserve_Returns:
  assumes inv: "invariant v" and gt: "Capacity v < n"
    and r: "Reserve tr n v w = Returns u (v', w')"
    and nw: "0 < sizeof tr" "n * sizeof tr \<le> SIZE_MAX"
  shows "size' v' = size' v \<and> Capacity v' = n \<and> invariant v' \<and> elements v' = elements v"
proof -
  from Reserve_inv[OF r gt] obtain new_data w1 old new w3 old' where
    al: "RawMemory_new tr n w = Returns new_data w1"
    and re: "relocate tr (buffer' (data' v)) 0 (size' v) (buffer' new_data) 0 w1 = Returns () (old, new, w3)"
    and v': "buffer' (data' v') = new" "capacity' (data' v') = capacity' new_data" "size' v' = size' v"
    by blast
  from RawMemory_new_Returns[OF al] byte_count_exact[OF nw]
  have nd: "new_data = \<lparr>buffer' = replicate n Raw, capacity' = n\<rparr>" by simp
  note R = relocate_Returns[OF re]
  have sz: "size' v < n" using inv gt by (simp add: invariant_def Capacity_def)
  have len: "length new = n" using R nd by simp
  have lo: "\<forall>i<size' v. read new i = read (buffer' (data' v)) i" using R by simp
  have hi: "\<forall>i<n. size' v \<le> i \<longrightarrow> read new i = None" using R nd len by (simp add: read_def)
  have inv': "invariant v'"
    unfolding invariant_iff
  proof (intro conjI allI impI)
    show "size' v' \<le> capacity' (data' v')" using v' nd sz by simp
    show "length (buffer' (data' v')) = capacity' (data' v')" using v' nd len by simp
  next
    fix i assume "i < capacity' (data' v')"
    then have ic: "i < n" using v' nd by simp
    show "(read (buffer' (data' v')) i \<noteq> None) = (i < size' v')"
    proof (cases "i < size' v")
      case True
      then have "read new i = read (buffer' (data' v)) i" using lo by simp
      moreover have "read (buffer' (data' v)) i \<noteq> None" using inv True by (simp add: invariant_iff)
      ultimately show ?thesis using v' True by simp
    next
      case False
      then show ?thesis using hi ic v' by simp
    qed
  qed
  from Reserve_Returns_elements[OF inv gt r] inv' show ?thesis by simp
qed

lemma Reserve_counters:
  assumes r: "Reserve tr n v w = Returns u (v', w')" and gt: "Capacity v < n"
  shows "copies w' = copies w + (if moves_on_relocation tr then 0 else size' v)
     \<and> moves w' = moves w + (if moves_on_relocation tr then size' v else 0)
     \<and> ctors w' = ctors w \<and> dtors w' = dtors w + size' v
     \<and> (alloc_budget w = None \<longrightarrow> alloc_budget w' = None) \<and> (budget w = None \<longrightarrow> budget w' = None)"
proof -
  from Reserve_inv[OF r gt] obtain new_data w1 old new w3 old' where
    al: "RawMemory_new tr n w = Returns new_data w1"
    and re: "relocate tr (buffer' (data' v)) 0 (size' v) (buffer' new_data) 0 w1 = Returns () (old, new, w3)"
    and de: "destroy_n old 0 (size' v) w3 = Some (old', w')"
    by blast
  from RawMemory_new_Returns[OF al] relocate_counters[OF re] destroy_n_Some[OF de]
  show ?thesis by simp
qed

lemma Reserve_total:
  assumes inv: "invariant v" and nf: "budget w = None" "alloc_budget w = None"
    and nw: "0 < sizeof tr" "n * sizeof tr \<le> SIZE_MAX"
  shows "\<exists>v' w'. Reserve tr n v w = Returns () (v', w')"
proof (cases "n \<le> Capacity v")
  case True
  then show ?thesis by (simp add: Reserve_noop)
next
  case False
  then have sz: "size' v \<le> n" using inv by (simp add: invariant_def Capacity_def)
  have al: "RawMemory_new tr n w = Returns \<lparr>buffer' = replicate n (Raw :: 'a slot), capacity' = n\<rparr> w"
    using nf by (simp add: RawMemory_new_exact[OF nw] RawMemory_exact_None)
  have "0 + size' v \<le> length (replicate n (Raw :: 'a slot))" using sz by simp
  from relocate_total[OF invariant_live[OF inv] this nf(1)] obtain old new w3 where
    re: "relocate tr (buffer' (data' v)) 0 (size' v) (replicate n Raw) 0 w = Returns () (old, new, w3)" by blast
  from relocate_Returns[OF re] invariant_live[OF inv] have "\<forall>i<size' v. read old (0 + i) \<noteq> None" by simp
  from destroy_n_total[OF this] obtain old' where
    de: "destroy_n old 0 (size' v) w3 = Some (old', w3\<lparr>dtors := dtors w3 + size' v\<rparr>)" by blast
  show ?thesis
    unfolding Reserve_def relocate_def[symmetric]
    using False al re de by (simp add: Capacity_def RawMemory_Swap_def)
qed

lemma Reserve_Throws:
  assumes r: "Reserve tr n v w = Throws e (v', w')"
    and ty: "is_nothrow_move_constructible tr \<or> is_copy_constructible tr"
  shows "v' = v"
  using r unfolding Reserve_def relocate_def[symmetric]
  by (auto simp: RawMemory_Swap_def dest!: relocate_Throws[OF _ ty]
           split: outcome.split_asm prod.split_asm option.split_asm if_split_asm)

lemma EmplaceNoCapacity_inv:
  assumes r: "EmplaceNoCapacity tr index (Outside a) v w = Returns k (v', w')"
  shows "\<exists>new_data w1 new1 w2 old2 new2 w3 old3 new3 w4 old'.
     RawMemory_exact (if Capacity v = 0 then 1 else size' v * 2) w = Returns new_data w1
     \<and> construct_at tr a (buffer' new_data) index w1 = Returns () (new1, w2)
     \<and> relocate tr (buffer' (data' v)) 0 index new1 0 w2 = Returns () (old2, new2, w3)
     \<and> relocate tr old2 index (size' v - index) new2 (index + 1) w3 = Returns () (old3, new3, w4)
     \<and> destroy_n old3 0 (size' v) w4 = Some (old', w')
     \<and> buffer' (data' v') = new3 \<and> capacity' (data' v') = capacity' new_data \<and> size' v' = size' v + 1
     \<and> k = index \<and> index \<le> size' v"
  using r unfolding EmplaceNoCapacity_def relocate_def[symmetric]
  by (simp add: RawMemory_Swap_def split: outcome.split_asm prod.split_asm option.split_asm if_split_asm)
     auto

lemma EmplaceNoCapacity_Returns:
  assumes inv: "invariant v" and full: "size' v = Capacity v"
    and r: "EmplaceNoCapacity tr index (Outside a) v w = Returns k (v', w')"
  shows "size' v' = size' v + 1 \<and> k = index \<and> index \<le> size' v \<and> invariant v'
     \<and> (\<forall>i<index. subscript v' i = subscript v i) \<and> subscript v' index = Some (value_of a)
     \<and> (\<forall>i. index \<le> i \<and> i < size' v \<longrightarrow> subscript v' (i + 1) = subscript v i)
     \<and> Capacity v' = max 1 (size' v * 2)"
proof -
  define c where "c = (if Capacity v = 0 then 1 else size' v * 2)"
  define src where "src = buffer' (data' v)"
  define n where "n = size' v"
  from EmplaceNoCapacity_inv[OF r] obtain new_data w1 new1 w2 old2 new2 w3 old3 new3 w4 old' where
    al: "RawMemory_exact c w = Returns new_data w1"
    and ca: "construct_at tr a (buffer' new_data) index w1 = Returns () (new1, w2)"
    and re1: "relocate tr src 0 index new1 0 w2 = Returns () (old2, new2, w3)"
    and re2: "relocate tr old2 index (n - index) new2 (index + 1) w3 = Returns () (old3, new3, w4)"
    and v': "buffer' (data' v') = new3" "capacity' (data' v') = capacity' new_data" "size' v' = n + 1"
    and k: "k = index" and le: "index \<le> n"
    unfolding c_def src_def n_def by blast
  from RawMemory_exact_Returns[OF al] have nd: "new_data = \<lparr>buffer' = replicate c Raw, capacity' = c\<rparr>" by simp
  from construct_at_Returns[OF ca] nd have
    lt: "index < c" and new1: "new1 = (replicate c Raw)[index := Live (value_of a)]" by simp_all
  have cmax: "c = max 1 (n * 2)" using full by (auto simp: c_def n_def)
  have nc: "n < c" using cmax by (cases n) auto
  note R1 = relocate_Returns[OF re1]
  note R2 = relocate_Returns[OF re2]
  have len: "length new3 = c" "length new2 = c" using R1 R2 new1 by simp_all
  have live: "\<forall>i<n. read src i \<noteq> None" using inv by (simp add: invariant_iff src_def n_def)
  have old2: "\<forall>i. index \<le> i \<longrightarrow> old2 ! i = src ! i" "length old2 = length src" using R1 by simp_all
  have srclen: "n \<le> length src" using inv by (simp add: invariant_def src_def n_def)
  have A: "\<forall>i<index. read new3 i = read src i"
  proof (intro allI impI)
    fix i assume i: "i < index"
    then have "new3 ! i = new2 ! i" using R2 by simp
    then have "read new3 i = read new2 i" using len by (simp add: read_def)
    also have "\<dots> = read src i" using R1 i by simp
    finally show "read new3 i = read src i" .
  qed
  have B: "read new3 index = Some (value_of a)"
  proof -
    have "new3 ! index = new2 ! index" using R2 by simp
    also have "\<dots> = new1 ! index" using R1 by simp
    finally show ?thesis using new1 lt len by (simp add: read_def)
  qed
  have C: "\<forall>i. index \<le> i \<and> i < n \<longrightarrow> read new3 (i + 1) = read src i"
  proof (intro allI impI)
    fix i assume i: "index \<le> i \<and> i < n"
    then have "i - index < n - index" by arith
    then have "read new3 (index + 1 + (i - index)) = read old2 (index + (i - index))" using R2 by blast
    moreover have "read old2 i = read src i" using old2 i by (simp add: read_def)
    ultimately show "read new3 (i + 1) = read src i" using i by simp
  qed
  have D: "\<forall>i<c. n < i \<longrightarrow> read new3 i = None"
  proof (intro allI impI)
    fix i assume i: "i < c" "n < i"
    then have "new3 ! i = new2 ! i" using R2 le by simp
    also have "\<dots> = new1 ! i" using R1 i le by simp
    finally show "read new3 i = None" using new1 i le len by (simp add: read_def)
  qed
  have inv': "invariant v'"
    unfolding invariant_iff
  proof (intro conjI allI impI)
    show "size' v' \<le> capacity' (data' v')" using v' nd nc by simp
    show "length (buffer' (data' v')) = capacity' (data' v')" using v' nd len by simp
  next
    fix i assume "i < capacity' (data' v')"
    then have ic: "i < c" using v' nd by simp
    consider "i < index" | "i = index" | "index < i" "i \<le> n" | "n < i" by linarith
    then show "(read (buffer' (data' v')) i \<noteq> None) = (i < size' v')"
    proof cases
      case 1
      then show ?thesis using A live le v' by simp
    next
      case 2
      then show ?thesis using B le v' by simp
    next
      case 3
      then have "read new3 ((i - 1) + 1) = read src (i - 1)" using C by (metis Suc_leI Suc_pred' add.commute less_imp_diff_less linorder_not_less not_less_eq plus_1_eq_Suc zero_less_iff_neq_zero not_less_zero order_less_le_trans)
      moreover have "read src (i - 1) \<noteq> None" using live 3 by simp
      ultimately show ?thesis using 3 v' by simp
    next
      case 4
      then show ?thesis using D ic v' by simp
    qed
  qed
  have s1: "\<forall>i<index. subscript v' i = subscript v i"
    using A v' nd nc le full by (auto simp: subscript_def subscript_ok_def src_def n_def Capacity_def)
  have s2: "subscript v' index = Some (value_of a)"
    using B v' nd lt le by (simp add: subscript_def subscript_ok_def)
  have s3: "\<forall>i. index \<le> i \<and> i < size' v \<longrightarrow> subscript v' (i + 1) = subscript v i"
    using C v' nd nc full by (auto simp: subscript_def subscript_ok_def src_def n_def Capacity_def)
  show ?thesis using v' k le inv' s1 s2 s3 cmax nd by (simp add: Capacity_def n_def)
qed

lemma EmplaceNoCapacity_counters:
  assumes r: "EmplaceNoCapacity tr index (Outside a) v w = Returns k (v', w')"
  shows "copies w' = copies w + (case a of CopyOf _ \<Rightarrow> 1 | _ \<Rightarrow> 0)
            + (if moves_on_relocation tr then 0 else size' v)
     \<and> moves w' = moves w + (case a of MoveOf _ \<Rightarrow> 1 | _ \<Rightarrow> 0)
            + (if moves_on_relocation tr then size' v else 0)
     \<and> ctors w' = ctors w + (case a of InPlace _ \<Rightarrow> 1 | _ \<Rightarrow> 0)
     \<and> dtors w' = dtors w + size' v
     \<and> (alloc_budget w = None \<longrightarrow> alloc_budget w' = None) \<and> (budget w = None \<longrightarrow> budget w' = None)"
proof -
  from EmplaceNoCapacity_inv[OF r] obtain new_data w1 new1 w2 old2 new2 w3 old3 new3 w4 old' where
    al: "RawMemory_exact (if Capacity v = 0 then 1 else size' v * 2) w = Returns new_data w1"
    and ca: "construct_at tr a (buffer' new_data) index w1 = Returns () (new1, w2)"
    and re1: "relocate tr (buffer' (data' v)) 0 index new1 0 w2 = Returns () (old2, new2, w3)"
    and re2: "relocate tr old2 index (size' v - index) new2 (index + 1) w3 = Returns () (old3, new3, w4)"
    and de: "destroy_n old3 0 (size' v) w4 = Some (old', w')"
    and le: "index \<le> size' v"
    by blast
  from RawMemory_exact_Returns[OF al] construct_at_counters[OF ca] relocate_counters[OF re1]
    relocate_counters[OF re2] destroy_n_Some[OF de] le
  show ?thesis by simp
qed

lemma relocate_Returns_copy:
  "\<not> moves_on_relocation tr \<Longrightarrow> relocate tr src first n dst d w = Returns u (src', dst', w') \<Longrightarrow> src' = src"
  by (auto simp: relocate_def moves_on_relocation_def const_source_def split: outcome.splits prod.splits)

lemma relocate_nothrow:
  "is_nothrow_move_constructible tr \<Longrightarrow> relocate tr src first n dst d w \<noteq> Throws e s"
  by (simp add: relocate_def uninitialized_move_n_nothrow)

lemma EmplaceNoCapacity_Throws:
  assumes r: "EmplaceNoCapacity tr index (Outside a) v w = Throws e (v', w')"
    and ty: "is_nothrow_move_constructible tr \<or> is_copy_constructible tr"
  shows "v' = v"
proof (cases "is_nothrow_move_constructible tr")
  case True
  show ?thesis
    using r unfolding EmplaceNoCapacity_def relocate_def[symmetric]
    by (auto simp: RawMemory_Swap_def relocate_nothrow[OF True]
             split: outcome.split_asm prod.split_asm option.split_asm if_split_asm)
next
  case False
  with ty have nm: "\<not> moves_on_relocation tr" by (simp add: moves_on_relocation_def)
  show ?thesis
    using r unfolding EmplaceNoCapacity_def relocate_def[symmetric]
    by (auto simp: RawMemory_Swap_def dest!: relocate_Throws[OF _ ty] relocate_Returns_copy[OF nm]
             split: outcome.split_asm prod.split_asm option.split_asm if_split_asm)
qed

lemma EmplaceNoCapacity_total:
  assumes inv: "invariant v" and full: "size' v = Capacity v" and le: "index \<le> size' v"
    and nf: "budget w = None" "alloc_budget w = None"
  shows "\<exists>k v' w'. EmplaceNoCapacity tr index (Outside a) v w = Returns k (v', w')"
proof -
  define c where "c = (if Capacity v = 0 then 1 else size' v * 2)"
  define src where "src = buffer' (data' v)"
  define n where "n = size' v"
  have nc: "n < c" using full by (auto simp: c_def n_def)
  have lt: "index < c" using le nc by (simp add: n_def)
  have al: "RawMemory_exact c w = Returns \<lparr>buffer' = replicate c (Raw :: 'a slot), capacity' = c\<rparr> w"
    using nf by (simp add: RawMemory_exact_None)
  define new1 where "new1 = (replicate c (Raw :: 'a slot))[index := Live (value_of a)]"
  from construct_at_None[OF nf(1), of index "replicate c Raw" tr a] lt obtain w2 where
    ca: "construct_at tr a (replicate c Raw) index w = Returns () (new1, w2)"
    by (auto simp: new1_def)
  from construct_at_counters[OF ca] nf have b2: "budget w2 = None" by simp
  have live: "\<forall>i<n. read src (0 + i) \<noteq> None" using inv by (simp add: invariant_iff src_def n_def)
  then have live1: "\<forall>i<index. read src (0 + i) \<noteq> None" using le by (simp add: n_def)
  have "0 + index \<le> length new1" using lt by (simp add: new1_def)
  from relocate_total[OF live1 this b2] obtain old2 new2 w3 where
    re1: "relocate tr src 0 index new1 0 w2 = Returns () (old2, new2, w3)" by blast
  note R1 = relocate_Returns[OF re1]
  from relocate_counters[OF re1] b2 have b3: "budget w3 = None" by simp
  have live2: "\<forall>i<n - index. read old2 (index + i) \<noteq> None"
    using R1 live by simp
  have "index + 1 + (n - index) \<le> length new2" using R1 nc le by (simp add: new1_def n_def)
  from relocate_total[OF live2 this b3] obtain old3 new3 w4 where
    re2: "relocate tr old2 index (n - index) new2 (index + 1) w3 = Returns () (old3, new3, w4)" by blast
  from relocate_Returns[OF re2] R1 live have "\<forall>i<n. read old3 (0 + i) \<noteq> None" by simp
  from destroy_n_total[OF this] obtain old' where
    de: "destroy_n old3 0 n w4 = Some (old', w4\<lparr>dtors := dtors w4 + n\<rparr>)" by blast
  show ?thesis
    unfolding EmplaceNoCapacity_def relocate_def[symmetric]
    using al ca re1 re2 de le
    by (simp add: c_def[symmetric] src_def[symmetric] n_def[symmetric] RawMemory_Swap_def)
qed

lemma PushBack_Returns: "PushBack tr a v w = Returns u s \<longleftrightarrow> (\<exists>k. EmplaceBack tr a v w = Returns k s)"
  by (auto simp: PushBack_def split: outcome.splits)

lemma invariant_vec: "length xs \<le> c \<Longrightarrow> invariant (vec xs c)"
  by (simp add: invariant_def vec_def list_all_iff set_replicate_conv_if)

lemma invariant_default: "invariant Vector_default"
  by (simp add: invariant_def Vector_default_def RawMemory_default_def)

lemma elements_vec: "length xs \<le> c \<Longrightarrow> elements (vec xs c) = map Some xs"
  by (auto simp: elements_def vec_def subscript_def subscript_ok_def read_def nth_append
           intro!: nth_equalityI)

lemma appends_Returns:
  "invariant v \<Longrightarrow> appends tr as v w = Returns cs (v', w') \<Longrightarrow>
     size' v' = size' v + length as \<and> elements v' = elements v @ map (\<lambda>a. Some (value_of a)) as
     \<and> invariant v' \<and> length cs = length as"
proof (induction as arbitrary: v w cs)
  case Nil
  then show ?case by simp
next
  case (Cons a as)
  from Cons.prems(2) obtain k v1 w1 cs1 where
    e: "EmplaceBack tr a v w = Returns k (v1, w1)"
    and rest: "appends tr as v1 w1 = Returns cs1 (v', w')" and cs: "cs = Capacity v1 # cs1"
    by (auto simp: PushBack_def split: outcome.splits prod.splits)
  note E = EmplaceBack_Returns[OF Cons.prems(1) e]
  from E have el: "elements v1 = elements v @ [Some (value_of a)]"
    by (intro elements_append) simp_all
  from E have "invariant v1" by simp
  from Cons.IH[OF this rest] E el cs show ?case by simp
qed

lemma appends_total:
  "invariant v \<Longrightarrow> budget w = None \<Longrightarrow> alloc_budget w = None \<Longrightarrow>
     \<exists>cs v' w'. appends tr as v w = Returns cs (v', w')"
proof (induction as arbitrary: v w)
  case Nil
  then show ?case by simp
next
  case (Cons a as)
  from EmplaceBack_total[OF Cons.prems, of tr a] obtain k v1 w1 where
    e: "EmplaceBack tr a v w = Returns k (v1, w1)" by blast
  from EmplaceBack_Returns[OF Cons.prems(1) e] have i1: "invariant v1" by simp
  from EmplaceBack_counters[OF e] Cons.prems have b1: "budget w1 = None" "alloc_budget w1 = None" by simp_all
  from Cons.IH[OF i1 b1] obtain cs v' w' where "appends tr as v1 w1 = Returns cs (v', w')" by blast
  then show ?case using e by (simp add: PushBack_def)
qed


lemma subscript_vec: "length xs \<le> c \<Longrightarrow> subscript (vec xs c) i = (if i < length xs then Some (xs ! i) else None)"
  by (auto simp: vec_def subscript_def subscript_ok_def read_def nth_append)


lemma EmplaceBack_grow_capacity:
  fixes v :: "'a Vector"
  assumes "size' v = Capacity v" "EmplaceBack tr a v w = Returns k (v', w')"
  shows "Capacity v' = max 1 (size' v * 2)"
proof -
  from EmplaceBack_grow_inv[OF assms(2,1)] obtain new_data :: "'a RawMemory" and w1 where
    al: "RawMemory_exact (if Capacity v = 0 then 1 else size' v * 2) w = Returns new_data w1"
    and c: "capacity' (data' v') = capacity' new_data" by blast
  from RawMemory_exact_Returns[OF al] c assms(1) show ?thesis by (auto simp: Capacity_def)
qed

lemma EmplaceNoCapacity_referent:
  assumes "referent (buffer' (data' v)) (size' v) r = Some a"
  shows "EmplaceNoCapacity tr p r v w = EmplaceNoCapacity tr p (Outside a) v w"
  unfolding EmplaceNoCapacity_def referent_Outside assms by (rule refl)

lemma EmplaceNoCapacity_dangling:
  assumes "referent (buffer' (data' v)) (size' v) r = None"
  shows "EmplaceNoCapacity tr p r v w = Undefined
       \<or> (\<exists>e w1. EmplaceNoCapacity tr p r v w = Throws e (v, w1))"
  unfolding EmplaceNoCapacity_def assms by (simp split: outcome.split)

lemma Emplace_regrow_referent:
  assumes "\<not> size' v < Capacity v" "referent (buffer' (data' v)) (size' v) r = Some a"
  shows "Emplace tr p r v w = Emplace tr p (Outside a) v w"
  using assms by (simp add: Emplace_def EmplaceNoCapacity_referent[OF assms(2)])

lemma Emplace_regrow_dangling:
  assumes "\<not> size' v < Capacity v" "referent (buffer' (data' v)) (size' v) r = None"
  shows "Emplace tr p r v w = Undefined \<or> (\<exists>e w1. Emplace tr p r v w = Throws e (v, w1))"
  using assms EmplaceNoCapacity_dangling[OF assms(2), of tr p w] by (simp add: Emplace_def)

lemma Emplace_grow_capacity_Outside:
  fixes v :: "'a Vector"
  assumes full: "size' v = Capacity v" and r: "Emplace tr p (Outside a) v w = Returns k (v', w')"
  shows "Capacity v' = max 1 (size' v * 2)"
proof (cases "p = size' v")
  case True
  with r obtain k' where "EmplaceBack tr a v w = Returns k' (v', w')"
    by (auto simp: Emplace_def split: outcome.splits prod.splits)
  from EmplaceBack_grow_capacity[OF full this] show ?thesis .
next
  case False
  with r full have r': "EmplaceNoCapacity tr p (Outside a) v w = Returns k (v', w')" by (simp add: Emplace_def)
  from EmplaceNoCapacity_inv[OF r'] obtain new_data :: "'a RawMemory" and w1 where
    al: "RawMemory_exact (if Capacity v = 0 then 1 else size' v * 2) w = Returns new_data w1"
    and c: "capacity' (data' v') = capacity' new_data" by blast
  from RawMemory_exact_Returns[OF al] c full show ?thesis by (auto simp: Capacity_def)
qed

lemma Emplace_grow_capacity:
  fixes v :: "'a Vector"
  assumes full: "size' v = Capacity v" and r: "Emplace tr p r v w = Returns k (v', w')"
  shows "Capacity v' = max 1 (size' v * 2)"
proof (cases "referent (buffer' (data' v)) (size' v) r")
  case None
  from full have nf: "\<not> size' v < Capacity v" by simp
  from Emplace_regrow_dangling[OF nf None, of tr p w] r show ?thesis by auto
next
  case (Some a)
  from full have nf: "\<not> size' v < Capacity v" by simp
  from r have "Emplace tr p (Outside a) v w = Returns k (v', w')"
    by (simp add: Emplace_regrow_referent[OF nf Some])
  from Emplace_grow_capacity_Outside[OF full this] show ?thesis .
qed

lemma appends_Cons_inv:
  assumes "appends tr (a # as) v w = Returns cs s"
  shows "\<exists>k v1 w1 cs1. EmplaceBack tr a v w = Returns k (v1, w1)
           \<and> appends tr as v1 w1 = Returns cs1 s \<and> cs = Capacity v1 # cs1"
  using assms by (auto simp: PushBack_def split: outcome.splits prod.splits)

lemma appends_five_capacities:
  assumes r: "appends tr [a1, a2, a3, a4, a5] Vector_default w = Returns cs s"
  shows "cs = [1, 2, 4, 4, 8]"
proof -
  have i0: "invariant (Vector_default :: 'a Vector)" by (rule invariant_default)
  have s0: "size' (Vector_default :: 'a Vector) = 0" "Capacity (Vector_default :: 'a Vector) = 0"
    by (simp_all add: Vector_default_def RawMemory_default_def Capacity_def)
  from appends_Cons_inv[OF r] obtain k1 v1 w1 cs1 where
    e1: "EmplaceBack tr a1 Vector_default w = Returns k1 (v1, w1)"
    and r1: "appends tr [a2, a3, a4, a5] v1 w1 = Returns cs1 s" and c1: "cs = Capacity v1 # cs1" by blast
  from EmplaceBack_Returns[OF i0 e1] s0 have p1: "invariant v1" "size' v1 = 1" "Capacity v1 = 1" by simp_all
  from appends_Cons_inv[OF r1] obtain k2 v2 w2 cs2 where
    e2: "EmplaceBack tr a2 v1 w1 = Returns k2 (v2, w2)"
    and r2: "appends tr [a3, a4, a5] v2 w2 = Returns cs2 s" and c2: "cs1 = Capacity v2 # cs2" by blast
  from EmplaceBack_Returns[OF p1(1) e2] p1 have p2: "invariant v2" "size' v2 = 2" "Capacity v2 = 2" by simp_all
  from appends_Cons_inv[OF r2] obtain k3 v3 w3 cs3 where
    e3: "EmplaceBack tr a3 v2 w2 = Returns k3 (v3, w3)"
    and r3: "appends tr [a4, a5] v3 w3 = Returns cs3 s" and c3: "cs2 = Capacity v3 # cs3" by blast
  from EmplaceBack_Returns[OF p2(1) e3] p2 have p3: "invariant v3" "size' v3 = 3" "Capacity v3 = 4" by simp_all
  from appends_Cons_inv[OF r3] obtain k4 v4 w4 cs4 where
    e4: "EmplaceBack tr a4 v3 w3 = Returns k4 (v4, w4)"
    and r4: "appends tr [a5] v4 w4 = Returns cs4 s" and c4: "cs3 = Capacity v4 # cs4" by blast
  from EmplaceBack_Returns[OF p3(1) e4] p3 have p4: "invariant v4" "size' v4 = 4" "Capacity v4 = 4" by simp_all
  from appends_Cons_inv[OF r4] obtain k5 v5 w5 cs5 where
    e5: "EmplaceBack tr a5 v4 w4 = Returns k5 (v5, w5)"
    and r5: "appends tr [] v5 w5 = Returns cs5 s" and c5: "cs4 = Capacity v5 # cs5" by blast
  from EmplaceBack_Returns[OF p4(1) e5] p4 have p5: "Capacity v5 = 8" by simp
  from r5 have "cs5 = []" by simp
  with c1 c2 c3 c4 c5 p1 p2 p3 p4 p5 show ?thesis by simp
qed


lemma Vector_move_eq:
  fixes v :: "'a Vector"
  shows "Vector_move v = (v, Vector_default)"
  by (cases v, cases "data' v")
     (simp add: Vector_move_def Swap_def RawMemory_Swap_def Vector_default_def RawMemory_default_def)

lemma move_assign_distinct:
  fixes st :: "'a store"
  assumes "this \<noteq> rhs"
  shows "move_assign this rhs st this = st rhs \<and> move_assign this rhs st rhs = st this"
proof -
  have "Swap (st this) (st rhs) = (st rhs, st this)"
    by (cases "st this", cases "st rhs", cases "data' (st this)", cases "data' (st rhs)")
       (simp add: Swap_def RawMemory_Swap_def)
  then show ?thesis using assms by (simp add: move_assign_def)
qed

lemma Vector_destructor_total: "invariant v \<Longrightarrow> Vector_destructor v w \<noteq> None"
  using destroy_n_total[OF invariant_live, of v w] by (auto simp: Vector_destructor_def)

lemma elements_default: "elements Vector_default = []"
  by (simp add: elements_def Vector_default_def)

lemma EmplaceBack_reusable:
  assumes "invariant v" "budget w = None" "alloc_budget w = None"
  shows "\<exists>k v' w'. EmplaceBack tr a v w = Returns k (v', w')
           \<and> elements v' = elements v @ [Some (value_of a)]"
proof -
  from EmplaceBack_total[OF assms, of tr a] obtain k v' w' where
    r: "EmplaceBack tr a v w = Returns k (v', w')" by blast
  from EmplaceBack_Returns[OF assms(1) r] have "elements v' = elements v @ [Some (value_of a)]"
    by (intro elements_append) simp_all
  with r show ?thesis by blast
qed


lemma copy_assign_body_regrow_Throws:
  assumes "capacity' (data' v) < size' rhs" "copy_assign_body v rhs w = Throws e (v', w')"
  shows "v' = v"
  using assms unfolding copy_assign_body_def
  by (auto split: outcome.split_asm prod.split_asm option.split_asm if_split_asm)

lemma Emplace_regrow_Throws_Outside:
  assumes r: "Emplace tr p (Outside a) v w = Throws e (v', w')" and full: "\<not> size' v < Capacity v"
    and ty: "is_nothrow_move_constructible tr \<or> is_copy_constructible tr"
  shows "v' = v"
proof (cases "p = size' v")
  case True
  with r have "EmplaceBack tr a v w = Throws e (v', w')"
    by (auto simp: Emplace_def split: outcome.splits prod.splits)
  from EmplaceBack_Throws[OF this ty] show ?thesis .
next
  case False
  with r full have "EmplaceNoCapacity tr p (Outside a) v w = Throws e (v', w')" by (simp add: Emplace_def)
  from EmplaceNoCapacity_Throws[OF this ty] show ?thesis .
qed

lemma Emplace_regrow_Throws:
  assumes r: "Emplace tr p r v w = Throws e (v', w')" and full: "\<not> size' v < Capacity v"
    and ty: "is_nothrow_move_constructible tr \<or> is_copy_constructible tr"
  shows "v' = v"
proof (cases "referent (buffer' (data' v)) (size' v) r")
  case None
  from Emplace_regrow_dangling[OF full None, of tr p w] r show ?thesis by auto
next
  case (Some a)
  from r have "Emplace tr p (Outside a) v w = Throws e (v', w')"
    by (simp add: Emplace_regrow_referent[OF full Some])
  from Emplace_regrow_Throws_Outside[OF this full ty] show ?thesis .
qed


subsection \<open>Move assignment inside a block\<close>

lemma move_assign_elem_Returns:
  "move_assign_elem tr x w = Returns p w' \<Longrightarrow>
     p = (x, moved_from tr x) \<and> copies w' = copies w \<and> moves w' = moves w \<and> ctors w' = ctors w
     \<and> dtors w' = dtors w \<and> alloc_budget w' = alloc_budget w \<and> (budget w = None \<longrightarrow> budget w' = None)"
  by (auto simp: move_assign_elem_def split: outcome.splits if_splits dest: fallible_Returns)

lemma move_assign_elem_None:
  "budget w = None \<Longrightarrow> move_assign_elem tr x w = Returns (x, moved_from tr x) w"
  by (simp add: move_assign_elem_def fallible_None)

lemma move_assign_at_Returns:
  "move_assign_at tr buf s d w = Returns u (buf', w') \<Longrightarrow>
     read buf s \<noteq> None \<and> read buf d \<noteq> None
     \<and> buf' = buf[s := Live (moved_from tr (the (read buf s))), d := Live (the (read buf s))]
     \<and> copies w' = copies w \<and> moves w' = moves w \<and> ctors w' = ctors w
     \<and> dtors w' = dtors w \<and> alloc_budget w' = alloc_budget w \<and> (budget w = None \<longrightarrow> budget w' = None)"
  by (auto simp: move_assign_at_def split: option.splits outcome.splits prod.splits
           dest: move_assign_elem_Returns)

lemma move_assign_at_Throws:
  "move_assign_at tr buf s d w = Throws e (buf', w') \<Longrightarrow> buf' = buf"
  by (auto simp: move_assign_at_def split: option.splits outcome.splits prod.splits)

lemma move_assign_at_None:
  "budget w = None \<Longrightarrow> read buf s = Some x \<Longrightarrow> read buf d \<noteq> None \<Longrightarrow>
     move_assign_at tr buf s d w = Returns () (buf[s := Live (moved_from tr x), d := Live x], w)"
  by (auto simp: move_assign_at_def move_assign_elem_None)

lemma read_update2:
  "s < length buf \<Longrightarrow> d < length buf \<Longrightarrow>
   (read (buf[s := Live a, d := Live b]) i = None) = (if i = s \<or> i = d then False else read buf i = None)"
  by (auto simp: read_def nth_list_update)

lemma move_n_shift_Returns:
  "move_n tr buf (Suc d) n d w = Returns u (buf', w') \<Longrightarrow>
     length buf' = length buf
     \<and> (\<forall>i<n. read buf' (d + i) = read buf (Suc d + i) \<and> read buf (Suc d + i) \<noteq> None)
     \<and> (\<forall>i. i < d \<or> d + n < i \<longrightarrow> buf' ! i = buf ! i)
     \<and> (\<forall>i. (read buf' i = None) = (read buf i = None))
     \<and> copies w' = copies w \<and> moves w' = moves w \<and> ctors w' = ctors w
     \<and> dtors w' = dtors w \<and> alloc_budget w' = alloc_budget w \<and> (budget w = None \<longrightarrow> budget w' = None)"
proof (induction n arbitrary: buf d w)
  case 0
  then show ?case by simp
next
  case (Suc n)
  from Suc.prems obtain buf1 w1 where
    ma: "move_assign_at tr buf (Suc d) d w = Returns () (buf1, w1)"
    and rec: "move_n tr buf1 (Suc (Suc d)) n (Suc d) w1 = Returns u (buf', w')"
    by (auto split: outcome.splits prod.splits)
  define x where "x = the (read buf (Suc d))"
  from move_assign_at_Returns[OF ma] have
    x: "read buf (Suc d) = Some x" and b1: "buf1 = buf[Suc d := Live (moved_from tr x), d := Live x]"
    and dl: "read buf d \<noteq> None"
    and W1: "copies w1 = copies w \<and> moves w1 = moves w \<and> ctors w1 = ctors w
     \<and> dtors w1 = dtors w \<and> alloc_budget w1 = alloc_budget w \<and> (budget w = None \<longrightarrow> budget w1 = None)"
    by (auto simp: x_def)
  have lt: "Suc d < length buf" "d < length buf" using x dl by (auto simp: read_def split: if_splits)
  note IH = Suc.IH[OF rec]
  have len: "length buf' = length buf" using IH b1 by simp
  have A: "\<forall>i<Suc n. read buf' (d + i) = read buf (Suc d + i) \<and> read buf (Suc d + i) \<noteq> None"
  proof (intro allI impI)
    fix i assume i: "i < Suc n"
    show "read buf' (d + i) = read buf (Suc d + i) \<and> read buf (Suc d + i) \<noteq> None"
    proof (cases i)
      case 0
      have "buf' ! d = buf1 ! d" using IH by simp
      then have "read buf' d = Some x" using b1 lt len by (simp add: read_def)
      then show ?thesis using 0 x by simp
    next
      case (Suc j)
      then have j: "j < n" using i by simp
      then have "read buf' (Suc d + j) = read buf1 (Suc (Suc d) + j) \<and> read buf1 (Suc (Suc d) + j) \<noteq> None"
        using IH by blast
      moreover have "read buf1 (Suc (Suc d) + j) = read buf (Suc (Suc d) + j)"
        using b1 by (simp add: read_def)
      ultimately show ?thesis using Suc by simp
    qed
  qed
  have B: "\<forall>i. i < d \<or> d + Suc n < i \<longrightarrow> buf' ! i = buf ! i"
  proof (intro allI impI)
    fix i assume i: "i < d \<or> d + Suc n < i"
    then have "buf' ! i = buf1 ! i" using IH by auto
    also have "\<dots> = buf ! i" using i b1 by auto
    finally show "buf' ! i = buf ! i" .
  qed
  have C: "\<forall>i. (read buf' i = None) = (read buf i = None)"
  proof
    fix i
    have "(read buf' i = None) = (read buf1 i = None)" using IH by simp
    also have "\<dots> = (read buf i = None)"
      using x dl lt unfolding b1 by (auto simp: read_update2)
    finally show "(read buf' i = None) = (read buf i = None)" .
  qed
  show ?case using len A B C IH W1 by simp
qed

lemma move_n_shift_total:
  "\<forall>i\<le>n. read buf (d + i) \<noteq> None \<Longrightarrow> budget w = None \<Longrightarrow>
     \<exists>buf'. move_n tr buf (Suc d) n d w = Returns () (buf', w)"
proof (induction n arbitrary: buf d)
  case 0
  then show ?case by simp
next
  case (Suc n)
  from Suc.prems(1)[rule_format, of 0] Suc.prems(1)[rule_format, of 1]
  obtain x where x: "read buf (Suc d) = Some x" and dl: "read buf d \<noteq> None" by auto
  define buf1 where "buf1 = buf[Suc d := Live (moved_from tr x), d := Live x]"
  have lt: "Suc d < length buf" "d < length buf" using x dl by (auto simp: read_def split: if_splits)
  have ma: "move_assign_at tr buf (Suc d) d w = Returns () (buf1, w)"
    using move_assign_at_None[OF Suc.prems(2) x dl, of tr] by (simp add: buf1_def)
  have "\<forall>i\<le>n. read buf1 (Suc d + i) \<noteq> None"
  proof (intro allI impI)
    fix i assume "i \<le> n"
    then have "read buf (d + Suc i) \<noteq> None" using Suc.prems(1) by (meson Suc_le_mono)
    then show "read buf1 (Suc d + i) \<noteq> None" using lt unfolding buf1_def by (simp add: read_update2)
  qed
  from Suc.IH[OF this Suc.prems(2)] ma show ?case by simp
qed

lemma move_n_Throws_shape:
  "move_n tr buf first n d w = Throws e (buf', w') \<Longrightarrow>
     length buf' = length buf \<and> (\<forall>i. (read buf' i = None) = (read buf i = None))"
proof (induction n arbitrary: buf first d w)
  case 0
  then show ?case by simp
next
  case (Suc n)
  show ?case
  proof (cases "move_assign_at tr buf first d w")
    case (Returns u s)
    obtain buf1 w1 where s: "s = (buf1, w1)" by (cases s)
    from Suc.prems Returns s have rec: "move_n tr buf1 (Suc first) n (Suc d) w1 = Throws e (buf', w')" by simp
    define x where "x = the (read buf first)"
    from move_assign_at_Returns[OF Returns[unfolded s]] have
      x: "read buf first = Some x" and b1: "buf1 = buf[first := Live (moved_from tr x), d := Live x]"
      and dl: "read buf d \<noteq> None" by (auto simp: x_def)
    have lt: "first < length buf" "d < length buf" using x dl by (auto simp: read_def split: if_splits)
    have "\<forall>i. (read buf1 i = None) = (read buf i = None)"
      using x dl lt unfolding b1 by (auto simp: read_update2)
    with Suc.IH[OF rec] b1 show ?thesis by simp
  next
    case (Throws e1 s)
    with Suc.prems have "s = (buf', w')" by simp
    with Throws move_assign_at_Throws[of tr buf first d w e1 buf' w'] show ?thesis by simp
  next
    case Undefined
    with Suc.prems show ?thesis by simp
  qed
qed

lemma move_backward_n_shift_Returns:
  "move_backward_n tr buf n lst (Suc lst) w = Returns u (buf', w') \<Longrightarrow>
     n \<le> lst \<and> length buf' = length buf
     \<and> (\<forall>i. lst - n \<le> i \<and> i < lst \<longrightarrow> read buf' (Suc i) = read buf i \<and> read buf i \<noteq> None)
     \<and> (\<forall>i. i < lst - n \<or> lst < i \<longrightarrow> buf' ! i = buf ! i)
     \<and> (\<forall>i. (read buf' i = None) = (read buf i = None))
     \<and> copies w' = copies w \<and> moves w' = moves w \<and> ctors w' = ctors w
     \<and> dtors w' = dtors w \<and> alloc_budget w' = alloc_budget w \<and> (budget w = None \<longrightarrow> budget w' = None)"
proof (induction n arbitrary: buf lst w)
  case 0
  then show ?case by auto
next
  case (Suc n)
  from Suc.prems obtain l where l: "lst = Suc l" by (cases lst) auto
  from Suc.prems l obtain buf1 w1 where
    ma: "move_assign_at tr buf l (Suc l) w = Returns () (buf1, w1)"
    and rec: "move_backward_n tr buf1 n l (Suc l) w1 = Returns u (buf', w')"
    by (auto split: outcome.splits prod.splits)
  define x where "x = the (read buf l)"
  from move_assign_at_Returns[OF ma] have
    x: "read buf l = Some x" and b1: "buf1 = buf[l := Live (moved_from tr x), Suc l := Live x]"
    and dl: "read buf (Suc l) \<noteq> None"
    and W1: "copies w1 = copies w \<and> moves w1 = moves w \<and> ctors w1 = ctors w
     \<and> dtors w1 = dtors w \<and> alloc_budget w1 = alloc_budget w \<and> (budget w = None \<longrightarrow> budget w1 = None)"
    by (auto simp: x_def)
  have lt: "Suc l < length buf" "l < length buf" using x dl by (auto simp: read_def split: if_splits)
  note IH = Suc.IH[OF rec]
  have len: "length buf' = length buf" using IH b1 by simp
  have A: "\<forall>i. lst - Suc n \<le> i \<and> i < lst \<longrightarrow> read buf' (Suc i) = read buf i \<and> read buf i \<noteq> None"
  proof (intro allI impI)
    fix i assume i: "lst - Suc n \<le> i \<and> i < lst"
    show "read buf' (Suc i) = read buf i \<and> read buf i \<noteq> None"
    proof (cases "i = l")
      case True
      have "buf' ! Suc l = buf1 ! Suc l" using IH by simp
      then have "read buf' (Suc l) = Some x" using b1 lt len by (simp add: read_def)
      then show ?thesis using True x by simp
    next
      case False
      then have "l - n \<le> i \<and> i < l" using i l by auto
      then have "read buf' (Suc i) = read buf1 i \<and> read buf1 i \<noteq> None" using IH by blast
      moreover have "read buf1 i = read buf i" using b1 False \<open>l - n \<le> i \<and> i < l\<close> by (simp add: read_def)
      ultimately show ?thesis by simp
    qed
  qed
  have B: "\<forall>i. i < lst - Suc n \<or> lst < i \<longrightarrow> buf' ! i = buf ! i"
  proof (intro allI impI)
    fix i assume i: "i < lst - Suc n \<or> lst < i"
    then have "buf' ! i = buf1 ! i" using IH l by auto
    also have "\<dots> = buf ! i" using i b1 l by auto
    finally show "buf' ! i = buf ! i" .
  qed
  have C: "\<forall>i. (read buf' i = None) = (read buf i = None)"
  proof
    fix i
    have "(read buf' i = None) = (read buf1 i = None)" using IH by simp
    also have "\<dots> = (read buf i = None)"
      using x dl lt unfolding b1 by (auto simp: read_update2)
    finally show "(read buf' i = None) = (read buf i = None)" .
  qed
  have "Suc n \<le> lst" using IH l by simp
  then show ?case using len A B C IH W1 by simp
qed

lemma move_backward_n_shift_total:
  "n \<le> lst \<Longrightarrow> \<forall>i. lst - n \<le> i \<and> i \<le> lst \<longrightarrow> read buf i \<noteq> None \<Longrightarrow> budget w = None \<Longrightarrow>
     \<exists>buf'. move_backward_n tr buf n lst (Suc lst) w = Returns () (buf', w)"
proof (induction n arbitrary: buf lst)
  case 0
  then show ?case by simp
next
  case (Suc n)
  from Suc.prems(1) obtain l where l: "lst = Suc l" by (cases lst) auto
  from Suc.prems(2)[rule_format, of l] Suc.prems(2)[rule_format, of "Suc l"] l
  obtain x where x: "read buf l = Some x" and dl: "read buf (Suc l) \<noteq> None" by auto
  define buf1 where "buf1 = buf[l := Live (moved_from tr x), Suc l := Live x]"
  have lt: "Suc l < length buf" "l < length buf" using x dl by (auto simp: read_def split: if_splits)
  have ma: "move_assign_at tr buf l (Suc l) w = Returns () (buf1, w)"
    using move_assign_at_None[OF Suc.prems(3) x dl, of tr] by (simp add: buf1_def)
  have "\<forall>i. l - n \<le> i \<and> i \<le> l \<longrightarrow> read buf1 i \<noteq> None"
  proof (intro allI impI)
    fix i assume "l - n \<le> i \<and> i \<le> l"
    then have "read buf i \<noteq> None" using Suc.prems(2) l by auto
    then show "read buf1 i \<noteq> None" using lt unfolding buf1_def by (simp add: read_update2)
  qed
  moreover have "n \<le> l" using Suc.prems(1) l by simp
  ultimately obtain buf' where "move_backward_n tr buf1 n l (Suc l) w = Returns () (buf', w)"
    using Suc.IH[OF _ _ Suc.prems(3)] by blast
  then show ?case using ma l by simp
qed

lemma move_backward_n_Throws_shape:
  "move_backward_n tr buf n lst d w = Throws e (buf', w') \<Longrightarrow>
     length buf' = length buf \<and> (\<forall>i. (read buf' i = None) = (read buf i = None))"
proof (induction n arbitrary: buf lst d w)
  case 0
  then show ?case by simp
next
  case (Suc n)
  from Suc.prems have nz: "lst \<noteq> 0" "d \<noteq> 0" by (auto split: if_splits)
  show ?case
  proof (cases "move_assign_at tr buf (lst - 1) (d - 1) w")
    case (Returns u s)
    obtain buf1 w1 where s: "s = (buf1, w1)" by (cases s)
    from Suc.prems Returns s nz have rec: "move_backward_n tr buf1 n (lst - 1) (d - 1) w1 = Throws e (buf', w')"
      by simp
    define x where "x = the (read buf (lst - 1))"
    from move_assign_at_Returns[OF Returns[unfolded s]] have
      x: "read buf (lst - 1) = Some x" and b1: "buf1 = buf[lst - 1 := Live (moved_from tr x), d - 1 := Live x]"
      and dl: "read buf (d - 1) \<noteq> None" by (auto simp: x_def)
    have lt: "lst - 1 < length buf" "d - 1 < length buf" using x dl by (auto simp: read_def split: if_splits)
    have "\<forall>i. (read buf1 i = None) = (read buf i = None)"
      using x dl lt unfolding b1 by (auto simp: read_update2)
    with Suc.IH[OF rec] b1 show ?thesis by simp
  next
    case (Throws e1 s)
    with Suc.prems nz have "s = (buf', w')" by simp
    with Throws move_assign_at_Throws[of tr buf "lst - 1" "d - 1" w e1 buf' w'] show ?thesis by simp
  next
    case Undefined
    with Suc.prems nz show ?thesis by simp
  qed
qed

lemma move_construct_defined: "move_construct tr x w \<noteq> Undefined"
  by (auto simp: move_construct_def split: outcome.splits if_splits dest: fallible_defined[THEN notE])

subsection \<open>Positional insert with room\<close>

lemma EmplaceEnoughtCapacity_inv:
  assumes r: "EmplaceEnoughtCapacity tr index (Outside a) v w = Returns k (v', w')"
  shows "\<exists>x y x' w1 buf2 w2 t w3 y' t' w4.
     size' v \<noteq> 0 \<and> read (buffer' (data' v)) (size' v - 1) = Some x
     \<and> size' v < length (buffer' (data' v))
     \<and> move_construct tr x w = Returns (y, x') w1
     \<and> std_move_backward tr ((buffer' (data' v))[size' v - 1 := Live x', size' v := Live y])
          index (size' v - 1) (size' v) w1 = Returns () (buf2, w2)
     \<and> construct tr a w2 = Returns t w3
     \<and> read buf2 index \<noteq> None
     \<and> move_assign_elem tr t w3 = Returns (y', t') w4
     \<and> v' = v\<lparr>data' := (data' v)\<lparr>buffer' := buf2[index := Live y']\<rparr>, size' := size' v + 1\<rparr>
     \<and> w' = w4\<lparr>dtors := dtors w4 + 1\<rparr> \<and> k = index"
  using r unfolding EmplaceEnoughtCapacity_def
  by (simp split: outcome.split_asm prod.split_asm option.split_asm if_split_asm) auto

lemma EmplaceEnoughtCapacity_Returns:
  assumes inv: "invariant v" and room: "size' v < Capacity v"
    and r: "EmplaceEnoughtCapacity tr index (Outside a) v w = Returns k (v', w')"
  shows "size' v' = size' v + 1 \<and> k = index \<and> index < size' v \<and> invariant v'
     \<and> (\<forall>i<index. subscript v' i = subscript v i) \<and> subscript v' index = Some (value_of a)
     \<and> (\<forall>i. index \<le> i \<and> i < size' v \<longrightarrow> subscript v' (i + 1) = subscript v i)
     \<and> Capacity v' = Capacity v"
proof -
  define buf where "buf = buffer' (data' v)"
  define n where "n = size' v"
  from EmplaceEnoughtCapacity_inv[OF r] obtain x y x' w1 buf2 w2 t w3 y' t' w4 where
    nz: "n \<noteq> 0" and x: "read buf (n - 1) = Some x" and lt: "n < length buf"
    and mc: "move_construct tr x w = Returns (y, x') w1"
    and mb0: "std_move_backward tr (buf[n - 1 := Live x', n := Live y])
          index (n - 1) n w1 = Returns () (buf2, w2)"
    and co: "construct tr a w2 = Returns t w3"
    and ma: "move_assign_elem tr t w3 = Returns (y', t') w4"
    and v'0: "v' = v\<lparr>data' := (data' v)\<lparr>buffer' := buf2[index := Live y']\<rparr>, size' := n + 1\<rparr>"
    and k: "k = index"
    unfolding buf_def n_def by blast
  from move_construct_Returns[OF mc] have yx: "y = x" "x' = moved_from tr x" by simp_all
  from move_assign_elem_Returns[OF ma] have y': "y' = t" by simp
  note mb = mb0[unfolded yx] and v' = v'0[unfolded y']
  define buf1 where "buf1 = buf[n - 1 := Live (moved_from tr x), n := Live x]"
  from construct_Returns[OF co] have t: "t = value_of a" by simp
  from mb have le: "index \<le> n - 1"
    and mbn: "move_backward_n tr buf1 (n - 1 - index) (n - 1) n w1 = Returns () (buf2, w2)"
    by (auto simp: std_move_backward_def buf1_def split: if_splits)
  have "n = Suc (n - 1)" using nz by simp
  with mbn have "move_backward_n tr buf1 (n - 1 - index) (n - 1) (Suc (n - 1)) w1 = Returns () (buf2, w2)"
    by simp
  note M = move_backward_n_shift_Returns[OF this]
  have idx: "index < n" using le nz by simp
  have len2: "length buf2 = length buf" using M by (simp add: buf1_def)
  have live: "\<forall>i<n. read buf i \<noteq> None" and raw: "\<forall>i. n \<le> i \<and> i < length buf \<longrightarrow> read buf i = None"
    and cap: "length buf = capacity' (data' v)"
    using inv by (auto simp: invariant_iff buf_def n_def)
  have A: "\<forall>i<index. buf2 ! i = buf ! i"
  proof (intro allI impI)
    fix i assume i: "i < index"
    then have "buf2 ! i = buf1 ! i" using M le by auto
    also have "\<dots> = buf ! i" using i idx by (simp add: buf1_def)
    finally show "buf2 ! i = buf ! i" .
  qed
  have B: "\<forall>i. index \<le> i \<and> i < n \<longrightarrow> read buf2 (i + 1) = read buf i"
  proof (intro allI impI)
    fix i assume i: "index \<le> i \<and> i < n"
    show "read buf2 (i + 1) = read buf i"
    proof (cases "i = n - 1")
      case True
      have "n - 1 < n" using nz by simp
      then have "buf2 ! n = buf1 ! n" using M by blast
      then have "read buf2 n = Some x" using lt len2 by (simp add: buf1_def read_def)
      then show ?thesis using True x nz by simp
    next
      case False
      then have "n - 1 - (n - 1 - index) \<le> i \<and> i < n - 1" using i le by auto
      then have "read buf2 (Suc i) = read buf1 i" using M by blast
      also have "read buf1 i = read buf i" using False i by (simp add: buf1_def read_def)
      finally show ?thesis by simp
    qed
  qed
  have C: "\<forall>i. n < i \<longrightarrow> buf2 ! i = buf ! i"
  proof (intro allI impI)
    fix i assume i: "n < i"
    then have "buf2 ! i = buf1 ! i" using M by auto
    also have "\<dots> = buf ! i" using i by (simp add: buf1_def)
    finally show "buf2 ! i = buf ! i" .
  qed
  define buf3 where "buf3 = buf2[index := Live t]"
  have len3: "length buf3 = length buf" using len2 by (simp add: buf3_def)
  have R1: "\<forall>i<index. read buf3 i = read buf i"
    using A idx lt len2 by (auto simp: buf3_def read_def)
  have R2: "read buf3 index = Some (value_of a)"
    using idx lt len2 t by (simp add: buf3_def read_def)
  have R3: "\<forall>i. index \<le> i \<and> i < n \<longrightarrow> read buf3 (i + 1) = read buf i"
    using B len2 by (auto simp: buf3_def read_def)
  have R4: "\<forall>i. n < i \<and> i < length buf \<longrightarrow> read buf3 i = None"
    using C raw idx len2 by (auto simp: buf3_def read_def)
  have bv': "buffer' (data' v') = buf3" "capacity' (data' v') = capacity' (data' v)" "size' v' = n + 1"
    by (simp_all add: v' buf3_def)
  have inv': "invariant v'"
    unfolding invariant_iff
  proof (intro conjI allI impI)
    show "size' v' \<le> capacity' (data' v')" using bv' lt cap by simp
    show "length (buffer' (data' v')) = capacity' (data' v')" using bv' len3 cap by simp
  next
    fix i assume "i < capacity' (data' v')"
    then have ic: "i < length buf" using bv' cap by simp
    consider "i < index" | "i = index" | "index < i" "i \<le> n" | "n < i" by linarith
    then show "(read (buffer' (data' v')) i \<noteq> None) = (i < size' v')"
    proof cases
      case 1
      then show ?thesis using R1 live idx bv' by simp
    next
      case 2
      then show ?thesis using R2 idx bv' by simp
    next
      case 3
      then have "index \<le> i - 1 \<and> i - 1 < n" by auto
      then have "read buf3 (i - 1 + 1) = read buf (i - 1)" using R3 by blast
      moreover have "i - 1 + 1 = i" using 3 by simp
      moreover have "read buf (i - 1) \<noteq> None" using live 3 by simp
      ultimately show ?thesis using 3 bv' by simp
    next
      case 4
      then show ?thesis using R4 ic bv' by simp
    qed
  qed
  have s1: "\<forall>i<index. subscript v' i = subscript v i"
    using R1 bv' idx lt cap by (auto simp: subscript_def subscript_ok_def buf_def n_def)
  have s2: "subscript v' index = Some (value_of a)"
    using R2 bv' idx lt cap by (simp add: subscript_def subscript_ok_def)
  have s3: "\<forall>i. index \<le> i \<and> i < size' v \<longrightarrow> subscript v' (i + 1) = subscript v i"
    using R3 bv' lt cap by (auto simp: subscript_def subscript_ok_def buf_def n_def)
  show ?thesis using bv' k idx inv' s1 s2 s3 by (simp add: Capacity_def n_def)
qed

lemma EmplaceEnoughtCapacity_total:
  assumes inv: "invariant v" and room: "size' v < Capacity v" and idx: "index < size' v"
    and nf: "budget w = None"
  shows "\<exists>k v' w'. EmplaceEnoughtCapacity tr index (Outside a) v w = Returns k (v', w')"
proof -
  define buf where "buf = buffer' (data' v)"
  define n where "n = size' v"
  have live: "\<forall>i<n. read buf i \<noteq> None" and cap: "length buf = capacity' (data' v)"
    using inv by (auto simp: invariant_iff buf_def n_def)
  have nz: "n \<noteq> 0" using idx by (simp add: n_def)
  have lt: "n < length buf" using room cap by (simp add: Capacity_def n_def)
  from live nz obtain x where x: "read buf (n - 1) = Some x" by (metis diff_less not_None_eq zero_less_iff_neq_zero zero_less_one)
  define buf1 where "buf1 = buf[n - 1 := Live (moved_from tr x), n := Live x]"
  have mc: "move_construct tr x w = Returns (x, moved_from tr x) (w\<lparr>moves := moves w + 1\<rparr>)"
    using nf by (simp add: move_construct_None)
  define w1 where "w1 = w\<lparr>moves := moves w + 1\<rparr>"
  have b1: "budget w1 = None" using nf by (simp add: w1_def)
  have sh1: "\<forall>i. (read buf1 i = None) = (if i = n - 1 \<or> i = n then False else read buf i = None)"
    using lt unfolding buf1_def by (simp add: read_update2)
  have l1: "\<forall>i. n - 1 - (n - 1 - index) \<le> i \<and> i \<le> n - 1 \<longrightarrow> read buf1 i \<noteq> None"
  proof (intro allI impI)
    fix i assume "n - 1 - (n - 1 - index) \<le> i \<and> i \<le> n - 1"
    then have "i < n" using nz by arith
    then show "read buf1 i \<noteq> None" using live sh1 by simp
  qed
  have "n - 1 - index \<le> n - 1" by simp
  from move_backward_n_shift_total[OF this l1 b1, of tr] obtain buf2 where
    "move_backward_n tr buf1 (n - 1 - index) (n - 1) (Suc (n - 1)) w1 = Returns () (buf2, w1)" by blast
  then have mbn: "move_backward_n tr buf1 (n - 1 - index) (n - 1) n w1 = Returns () (buf2, w1)"
    using nz by simp
  from move_backward_n_shift_Returns[of tr buf1 "n - 1 - index" "n - 1" w1 "()" buf2 w1] mbn nz
  have sh: "\<forall>i. (read buf2 i = None) = (read buf1 i = None)" by simp
  have "read buf1 index \<noteq> None" using live idx sh1 by (simp add: n_def)
  then have r2: "read buf2 index \<noteq> None" using sh by simp
  from construct_None[OF b1, of tr a] obtain w3 where co: "construct tr a w1 = Returns (value_of a) w3" by blast
  from construct_Returns[OF co] b1 have b3: "budget w3 = None" by simp
  have ma: "move_assign_elem tr (value_of a) w3 = Returns (value_of a, moved_from tr (value_of a)) w3"
    using b3 by (simp add: move_assign_elem_None)
  have so: "subscript_ok (data' v) (n - 1)" "subscript_ok (data' v) index"
    using lt cap nz idx by (simp_all add: subscript_ok_def n_def)
  show ?thesis
    unfolding EmplaceEnoughtCapacity_def
    using nz x lt mc mbn[unfolded buf1_def w1_def] co[unfolded w1_def] r2 ma so idx
    by (auto simp: buf_def[symmetric] n_def[symmetric] std_move_backward_def split: option.splits)
qed

subsection \<open>Erase\<close>

lemma Erase_inv:
  assumes r: "Erase tr position v w = Returns k (v', w')"
  shows "\<exists>buf w1 buf'.
     std_move tr (buffer' (data' v)) (position + 1) (size' v) position w = Returns () (buf, w1)
     \<and> size' v \<noteq> 0 \<and> destroy_at buf (size' v - 1) w1 = Some (buf', w')
     \<and> v' = v\<lparr>data' := (data' v)\<lparr>buffer' := buf'\<rparr>, size' := size' v - 1\<rparr> \<and> k = position"
  using r unfolding Erase_def
  by (simp split: outcome.split_asm prod.split_asm option.split_asm if_split_asm)

lemma Erase_Returns:
  assumes inv: "invariant v" and r: "Erase tr position v w = Returns k (v', w')"
  shows "size' v' + 1 = size' v \<and> k = position \<and> position < size' v \<and> invariant v'
     \<and> (\<forall>i<position. subscript v' i = subscript v i)
     \<and> (\<forall>i. position \<le> i \<and> i < size' v' \<longrightarrow> subscript v' i = subscript v (i + 1))
     \<and> Capacity v' = Capacity v"
proof -
  define buf0 where "buf0 = buffer' (data' v)"
  define n where "n = size' v"
  from Erase_inv[OF r] obtain buf w1 buf' where
    sm: "std_move tr buf0 (position + 1) n position w = Returns () (buf, w1)"
    and nz: "n \<noteq> 0" and de: "destroy_at buf (n - 1) w1 = Some (buf', w')"
    and v': "v' = v\<lparr>data' := (data' v)\<lparr>buffer' := buf'\<rparr>, size' := n - 1\<rparr>" and k: "k = position"
    unfolding buf0_def n_def by blast
  from sm have pl: "position < n"
    and mn: "move_n tr buf0 (Suc position) (n - (position + 1)) position w = Returns () (buf, w1)"
    by (auto simp: std_move_def split: if_splits)
  note M = move_n_shift_Returns[OF mn]
  from destroy_at_Some[OF de] have b': "buf' = buf[n - 1 := Raw]" by simp
  have live: "\<forall>i<n. read buf0 i \<noteq> None" and raw: "\<forall>i. n \<le> i \<and> i < length buf0 \<longrightarrow> read buf0 i = None"
    and cap: "length buf0 = capacity' (data' v)" and nle: "n \<le> length buf0"
    using inv by (auto simp: invariant_iff buf0_def n_def invariant_def)
  have len: "length buf' = length buf0" using M b' by simp
  have R1: "\<forall>i<position. read buf' i = read buf0 i"
  proof (intro allI impI)
    fix i assume i: "i < position"
    then have "buf ! i = buf0 ! i" using M by simp
    then show "read buf' i = read buf0 i" using i pl M b' by (simp add: read_def)
  qed
  have R2: "\<forall>i. position \<le> i \<and> i < n - 1 \<longrightarrow> read buf' i = read buf0 (i + 1)"
  proof (intro allI impI)
    fix i assume i: "position \<le> i \<and> i < n - 1"
    then have "i - position < n - (position + 1)" by arith
    then have "read buf (position + (i - position)) = read buf0 (Suc position + (i - position))"
      using M by blast
    then have "read buf i = read buf0 (i + 1)" using i by simp
    then show "read buf' i = read buf0 (i + 1)" using i b' by (simp add: read_update)
  qed
  have R3: "\<forall>i. n - 1 \<le> i \<and> i < length buf0 \<longrightarrow> read buf' i = None"
  proof (intro allI impI)
    fix i assume i: "n - 1 \<le> i \<and> i < length buf0"
    show "read buf' i = None"
    proof (cases "i = n - 1")
      case True
      then show ?thesis using b' by (simp add: read_def)
    next
      case False
      then have "position + (n - (position + 1)) < i" using i pl by arith
      then have "buf ! i = buf0 ! i" using M by simp
      moreover have "read buf0 i = None" using raw i False by auto
      ultimately show ?thesis using b' i M False by (simp add: read_def)
    qed
  qed
  have bv': "buffer' (data' v') = buf'" "capacity' (data' v') = capacity' (data' v)" "size' v' = n - 1"
    by (simp_all add: v')
  have inv': "invariant v'"
    unfolding invariant_iff
  proof (intro conjI allI impI)
    show "size' v' \<le> capacity' (data' v')" using bv' nle cap by simp
    show "length (buffer' (data' v')) = capacity' (data' v')" using bv' len cap by simp
  next
    fix i assume "i < capacity' (data' v')"
    then have ic: "i < length buf0" using bv' cap by simp
    consider "i < position" | "position \<le> i" "i < n - 1" | "n - 1 \<le> i" by linarith
    then show "(read (buffer' (data' v')) i \<noteq> None) = (i < size' v')"
    proof cases
      case 1
      then show ?thesis using R1 live pl bv' by simp
    next
      case 2
      then have "read buf' i = read buf0 (i + 1)" using R2 by simp
      moreover have "read buf0 (i + 1) \<noteq> None" using live 2 by simp
      ultimately show ?thesis using 2 bv' by simp
    next
      case 3
      then show ?thesis using R3 ic bv' by simp
    qed
  qed
  have s1: "\<forall>i<position. subscript v' i = subscript v i"
    using R1 bv' pl nle cap by (auto simp: subscript_def subscript_ok_def buf0_def n_def)
  have s2: "\<forall>i. position \<le> i \<and> i < size' v' \<longrightarrow> subscript v' i = subscript v (i + 1)"
    using R2 bv' nle cap by (auto simp: subscript_def subscript_ok_def buf0_def n_def)
  show ?thesis using bv' k pl nz inv' s1 s2 by (simp add: Capacity_def n_def)
qed

lemma Erase_total:
  assumes inv: "invariant v" and pl: "position < size' v" and nf: "budget w = None"
  shows "\<exists>k v' w'. Erase tr position v w = Returns k (v', w')"
proof -
  define buf0 where "buf0 = buffer' (data' v)"
  define n where "n = size' v"
  have live: "\<forall>i<n. read buf0 i \<noteq> None" using inv by (auto simp: invariant_iff buf0_def n_def)
  have "\<forall>i\<le>n - (position + 1). read buf0 (position + i) \<noteq> None" using live pl by (simp add: n_def)
  from move_n_shift_total[OF this nf, of tr] obtain buf where
    mn: "move_n tr buf0 (Suc position) (n - (position + 1)) position w = Returns () (buf, w)" by blast
  from move_n_shift_Returns[OF mn] live pl have "read buf (n - 1) \<noteq> None" by (simp add: n_def)
  then have "\<exists>buf'. destroy_at buf (n - 1) w = Some (buf', w\<lparr>dtors := dtors w + 1\<rparr>)"
    by (auto simp: destroy_at_def)
  then show ?thesis
    unfolding Erase_def using mn pl
    by (auto simp: buf0_def[symmetric] n_def[symmetric] std_move_def)
qed

lemma EmplaceEnoughtCapacity_quiet:
  assumes r: "EmplaceEnoughtCapacity tr index (Outside a) v w = Returns k (v', w')"
  shows "(budget w = None \<longrightarrow> budget w' = None) \<and> alloc_budget w' = alloc_budget w"
proof -
  from EmplaceEnoughtCapacity_inv[OF r] obtain x y x' w1 buf2 w2 t w3 y' t' w4 where
    nz: "size' v \<noteq> 0"
    and mc: "move_construct tr x w = Returns (y, x') w1"
    and mb: "std_move_backward tr ((buffer' (data' v))[size' v - 1 := Live x', size' v := Live y])
          index (size' v - 1) (size' v) w1 = Returns () (buf2, w2)"
    and co: "construct tr a w2 = Returns t w3"
    and ma: "move_assign_elem tr t w3 = Returns (y', t') w4"
    and w': "w' = w4\<lparr>dtors := dtors w4 + 1\<rparr>"
    by blast
  from mb have "move_backward_n tr ((buffer' (data' v))[size' v - 1 := Live x', size' v := Live y])
       (size' v - 1 - index) (size' v - 1) (Suc (size' v - 1)) w1 = Returns () (buf2, w2)"
    using nz by (auto simp: std_move_backward_def split: if_splits)
  from move_backward_n_shift_Returns[OF this] move_construct_Returns[OF mc] construct_Returns[OF co]
    move_assign_elem_Returns[OF ma] w'
  show ?thesis by simp
qed

lemma Emplace_Returns:
  assumes inv: "invariant v" and r: "Emplace tr p (Outside a) v w = Returns k (v', w')"
  shows "size' v' = size' v + 1 \<and> k = p \<and> p \<le> size' v \<and> invariant v'
     \<and> (\<forall>i<p. subscript v' i = subscript v i) \<and> subscript v' p = Some (value_of a)
     \<and> (\<forall>i. p \<le> i \<and> i < size' v \<longrightarrow> subscript v' (i + 1) = subscript v i)
     \<and> (budget w = None \<and> alloc_budget w = None \<longrightarrow> budget w' = None \<and> alloc_budget w' = None)"
proof (cases "p = size' v")
  case True
  with r obtain k' where e: "EmplaceBack tr a v w = Returns k' (v', w')" and k: "k = size' v' - 1"
    by (auto simp: Emplace_def split: outcome.splits prod.splits)
  from EmplaceBack_Returns[OF inv e] EmplaceBack_counters[OF e] True k show ?thesis by auto
next
  case False
  show ?thesis
  proof (cases "size' v < Capacity v")
    case True
    with r False have e: "EmplaceEnoughtCapacity tr p (Outside a) v w = Returns k (v', w')" by (simp add: Emplace_def)
    from EmplaceEnoughtCapacity_Returns[OF inv True e] EmplaceEnoughtCapacity_quiet[OF e]
    show ?thesis by simp
  next
    case nr: False
    with r False have e: "EmplaceNoCapacity tr p (Outside a) v w = Returns k (v', w')" by (simp add: Emplace_def)
    from nr inv have full: "size' v = Capacity v" by (simp add: invariant_def Capacity_def)
    from EmplaceNoCapacity_Returns[OF inv full e] EmplaceNoCapacity_counters[OF e]
    show ?thesis by simp
  qed
qed

lemma Emplace_total:
  assumes inv: "invariant v" and le: "p \<le> size' v" and nf: "budget w = None" "alloc_budget w = None"
  shows "\<exists>k v' w'. Emplace tr p (Outside a) v w = Returns k (v', w')"
proof (cases "p = size' v")
  case True
  from EmplaceBack_total[OF inv nf, of tr a] True show ?thesis by (auto simp: Emplace_def)
next
  case False
  then have lt: "p < size' v" using le by simp
  show ?thesis
  proof (cases "size' v < Capacity v")
    case True
    from EmplaceEnoughtCapacity_total[OF inv True lt nf(1), of tr a] False True
    show ?thesis by (simp add: Emplace_def)
  next
    case nr: False
    with inv have full: "size' v = Capacity v" by (simp add: invariant_def Capacity_def)
    from EmplaceNoCapacity_total[OF inv full le nf, of tr a] False nr
    show ?thesis by (simp add: Emplace_def)
  qed
qed

lemma Emplace_elements:
  assumes inv: "invariant v" and r: "Emplace tr p (Outside a) v w = Returns k (v', w')"
  shows "elements v' = take p (elements v) @ [Some (value_of a)] @ drop p (elements v)"
proof (rule nth_equalityI)
  note E = Emplace_Returns[OF inv r]
  show "length (elements v') = length (take p (elements v) @ [Some (value_of a)] @ drop p (elements v))"
    using E by (simp add: elements_def)
  fix i assume "i < length (elements v')"
  then have i: "i < size' v + 1" using E by (simp add: elements_def)
  then have l: "elements v' ! i = subscript v' i" using E by (simp add: elements_def del: upt_Suc)
  consider "i < p" | "i = p" | "p < i" by linarith
  then show "elements v' ! i = (take p (elements v) @ [Some (value_of a)] @ drop p (elements v)) ! i"
  proof cases
    case 1
    then show ?thesis using l E i by (simp add: nth_append elements_def)
  next
    case 2
    then show ?thesis using l E by (simp add: nth_append elements_def)
  next
    case 3
    then have "p \<le> i - 1 \<and> i - 1 < size' v" using i by auto
    then have "subscript v' (i - 1 + 1) = subscript v (i - 1)" using E by blast
    moreover have "i - 1 + 1 = i" using 3 by simp
    moreover have "(take p (elements v) @ [Some (value_of a)] @ drop p (elements v)) ! i
        = elements v ! (i - 1)"
      using 3 i E by (simp add: nth_append elements_def min_def Suc_diff_Suc)
    ultimately show ?thesis using l i 3 by (simp add: elements_def)
  qed
qed

lemma Erase_elements:
  assumes inv: "invariant v" and r: "Erase tr p v w = Returns k (v', w')"
  shows "elements v' = take p (elements v) @ drop (Suc p) (elements v)"
proof (rule nth_equalityI)
  note E = Erase_Returns[OF inv r]
  show "length (elements v') = length (take p (elements v) @ drop (Suc p) (elements v))"
    using E by (auto simp: elements_def)
  fix i assume "i < length (elements v')"
  then have i: "i < size' v'" by (simp add: elements_def)
  then have l: "elements v' ! i = subscript v' i" by (simp add: elements_def del: upt_Suc)
  show "elements v' ! i = (take p (elements v) @ drop (Suc p) (elements v)) ! i"
  proof (cases "i < p")
    case True
    then show ?thesis using l E i by (simp add: nth_append elements_def)
  next
    case False
    then have "subscript v' i = subscript v (i + 1)" using E i by simp
    moreover have "(take p (elements v) @ drop (Suc p) (elements v)) ! i = elements v ! (i + 1)"
      using False i E by (simp add: nth_append elements_def min_def)
    ultimately show ?thesis using l i E by (simp add: elements_def)
  qed
qed

lemma Erase_quiet:
  assumes r: "Erase tr p v w = Returns k (v', w')"
  shows "(budget w = None \<longrightarrow> budget w' = None) \<and> alloc_budget w' = alloc_budget w"
proof -
  from Erase_inv[OF r] obtain buf w1 buf' where
    sm: "std_move tr (buffer' (data' v)) (p + 1) (size' v) p w = Returns () (buf, w1)"
    and de: "destroy_at buf (size' v - 1) w1 = Some (buf', w')" by blast
  from sm have "move_n tr (buffer' (data' v)) (Suc p) (size' v - (p + 1)) p w = Returns () (buf, w1)"
    by (auto simp: std_move_def split: if_splits)
  from move_n_shift_Returns[OF this] destroy_at_Some[OF de] show ?thesis by simp
qed


subsection \<open>Value construction into raw storage\<close>

lemma value_construct_Returns:
  "value_construct tr w = Returns y w' \<Longrightarrow>
     y = value_init tr \<and> alloc_budget w' = alloc_budget w \<and> (budget w = None \<longrightarrow> budget w' = None)"
  by (auto simp: value_construct_def split: outcome.splits dest: fallible_Returns)

lemma value_construct_None:
  "budget w = None \<Longrightarrow> value_construct tr w = Returns (value_init tr) (w\<lparr>ctors := ctors w + 1\<rparr>)"
  by (simp add: value_construct_def fallible_None)

lemma uninitialized_value_construct_n_Returns:
  "uninitialized_value_construct_n tr buf first n w = Returns u (buf', w') \<Longrightarrow>
     length buf' = length buf
     \<and> (\<forall>i<n. first + i < length buf \<and> read buf' (first + i) = Some (value_init tr))
     \<and> (\<forall>i. i < first \<or> first + n \<le> i \<longrightarrow> buf' ! i = buf ! i)
     \<and> alloc_budget w' = alloc_budget w \<and> (budget w = None \<longrightarrow> budget w' = None)"
proof (induction tr buf first n w arbitrary: buf' w' rule: uninitialized_value_construct_n.induct)
  case (1 tr buf first w)
  then show ?case by simp
next
  case (2 tr buf first n w)
  from "2.prems" obtain y w1 where
    lt: "first < length buf" and vc: "value_construct tr w = Returns y w1"
    and rec: "uninitialized_value_construct_n tr (buf[first := Live y]) (Suc first) n w1 = Returns u (buf', w')"
    by (auto split: if_splits outcome.splits prod.splits)
  note IH = "2.IH"[OF lt vc rec]
  from value_construct_Returns[OF vc] have y: "y = value_init tr"
    and W: "alloc_budget w1 = alloc_budget w" "budget w = None \<longrightarrow> budget w1 = None" by simp_all
  have A: "\<forall>i<Suc n. first + i < length buf \<and> read buf' (first + i) = Some (value_init tr)"
  proof (intro allI impI)
    fix i assume i: "i < Suc n"
    show "first + i < length buf \<and> read buf' (first + i) = Some (value_init tr)"
    proof (cases i)
      case 0
      have "buf' ! first = (buf[first := Live y]) ! first" using IH by simp
      then show ?thesis using 0 lt y IH by (simp add: read_def)
    next
      case (Suc j)
      then show ?thesis using IH i by auto
    qed
  qed
  have B: "\<forall>i. i < first \<or> first + Suc n \<le> i \<longrightarrow> buf' ! i = buf ! i"
    using IH by auto
  show ?case using IH A B W by simp
qed

lemma uninitialized_value_construct_n_Throws:
  "uninitialized_value_construct_n tr buf first n w = Throws e (buf', w') \<Longrightarrow>
     \<forall>i<n. first + i < length buf \<longrightarrow> buf ! (first + i) = Raw \<Longrightarrow> buf' = buf"
proof (induction tr buf first n w arbitrary: buf' w' rule: uninitialized_value_construct_n.induct)
  case (1 tr buf first w)
  then show ?case by simp
next
  case (2 tr buf first n w)
  from "2.prems"(1) have lt: "first < length buf" by (auto split: if_splits)
  have raw: "buf ! first = Raw" using "2.prems"(2)[rule_format, of 0] lt by simp
  show ?case
  proof (cases "value_construct tr w")
    case (Returns y w1)
    from "2.prems"(1) lt Returns obtain buf1 w2 where
      rec: "uninitialized_value_construct_n tr (buf[first := Live y]) (Suc first) n w1 = Throws e (buf1, w2)"
      and res: "buf' = buf1[first := Raw]"
      by (auto split: outcome.splits prod.splits)
    have "\<forall>i<n. Suc first + i < length (buf[first := Live y]) \<longrightarrow> buf[first := Live y] ! (Suc first + i) = Raw"
    proof (intro allI impI)
      fix i assume "i < n" "Suc first + i < length (buf[first := Live y])"
      then have "buf ! (first + Suc i) = Raw" using "2.prems"(2)[rule_format, of "Suc i"] by simp
      then show "buf[first := Live y] ! (Suc first + i) = Raw" by simp
    qed
    from "2.IH"[OF lt Returns rec this] have "buf1 = buf[first := Live y]" .
    then show ?thesis using res raw by (metis list_update_id list_update_overwrite)
  next
    case (Throws e1 w1)
    with "2.prems"(1) lt show ?thesis by auto
  next
    case Undefined
    with "2.prems"(1) lt show ?thesis by auto
  qed
qed

lemma uninitialized_value_construct_n_total:
  "first + n \<le> length buf \<Longrightarrow> budget w = None \<Longrightarrow>
     \<exists>buf' w'. uninitialized_value_construct_n tr buf first n w = Returns () (buf', w')"
proof (induction n arbitrary: buf first w)
  case 0
  then show ?case by simp
next
  case (Suc n)
  have 1: "Suc first + n \<le> length (buf[first := Live (value_init tr)])" using Suc.prems(1) by simp
  have 2: "budget (w\<lparr>ctors := ctors w + 1\<rparr>) = None" using Suc.prems(2) by simp
  from Suc.IH[OF 1 2] Suc.prems show ?case by (auto simp: value_construct_None)
qed

subsection \<open>Relocation that throws\<close>

lemma uninitialized_move_n_Throws_shape:
  "uninitialized_move_n tr src first n dst d w = Throws e (src', dst', w') \<Longrightarrow>
     length src' = length src \<and> (\<forall>i. (read src' i = None) = (read src i = None))"
proof (induction tr src first n dst d w arbitrary: src' dst' w' rule: uninitialized_move_n.induct)
  case (1 tr src first dst d_first w)
  then show ?case by simp
next
  case (2 tr src first n dst d_first w)
  from "2.prems" obtain x where rd: "read src first = Some x" and lt: "d_first < length dst"
    by (auto split: option.splits if_splits)
  show ?case
  proof (cases "move_construct tr x w")
    case (Returns p w1)
    from move_construct_Returns[OF Returns] have p: "p = (x, moved_from tr x)" by simp
    from "2.prems" rd lt Returns p obtain src1 dst1 w2 where
      rec: "uninitialized_move_n tr (src[first := Live (moved_from tr x)]) (Suc first) n
              (dst[d_first := Live x]) (Suc d_first) w1 = Throws e (src1, dst1, w2)"
      and res: "src' = src1"
      by (auto split: outcome.splits prod.splits)
    from "2.IH"[OF rd lt Returns[unfolded p] refl rec] res rd show ?thesis
      by (auto simp: read_update)
  next
    case (Throws e1 w1)
    with "2.prems" rd lt show ?thesis by auto
  next
    case Undefined
    with "2.prems" rd lt show ?thesis by auto
  qed
qed

lemma relocate_Throws_shape:
  "relocate tr src first n dst d w = Throws e (src', dst', w') \<Longrightarrow>
     length src' = length src \<and> (\<forall>i. (read src' i = None) = (read src i = None))"
  using uninitialized_move_n_Throws_shape[of tr src first n dst d w e src' dst' w']
  by (auto simp: relocate_def const_source_def split: if_splits outcome.splits prod.splits)

subsection \<open>The loop of the copy assignment\<close>

lemma copy_assign_elem_Returns:
  "copy_assign_elem x w = Returns y w' \<Longrightarrow>
     y = x \<and> alloc_budget w' = alloc_budget w \<and> (budget w = None \<longrightarrow> budget w' = None)"
  by (auto simp: copy_assign_elem_def split: outcome.splits dest: fallible_Returns)

lemma copy_assign_loop_base:
  "\<not> i < bound \<Longrightarrow> copy_assign_loop d r i bound w = Returns () (d, w)"
  by (subst copy_assign_loop.simps) simp

lemma copy_assign_loop_step_Returns:
  "i < bound \<Longrightarrow> copy_assign_loop d r i bound w = Returns u (d', w') \<Longrightarrow>
   \<exists>x z w1. subscript_ok d i \<and> subscript_ok r i
      \<and> read (buffer' r) i = Some x \<and> read (buffer' d) i = Some z
      \<and> copy_assign_elem x w = Returns x w1
      \<and> copy_assign_loop (d\<lparr>buffer' := (buffer' d)[i := Live x]\<rparr>) r (Suc i) bound w1 = Returns u (d', w')"
  apply (subst (asm) copy_assign_loop.simps)
  apply (simp split: if_split_asm option.split_asm outcome.split_asm)
  apply (auto dest: copy_assign_elem_Returns)
  done

lemma copy_assign_loop_step_Throws:
  "i < bound \<Longrightarrow> copy_assign_loop d r i bound w = Throws e (d', w') \<Longrightarrow>
   d' = d \<or> (\<exists>x z w1. read (buffer' r) i = Some x \<and> read (buffer' d) i = Some z
      \<and> copy_assign_loop (d\<lparr>buffer' := (buffer' d)[i := Live x]\<rparr>) r (Suc i) bound w1 = Throws e (d', w'))"
  apply (subst (asm) copy_assign_loop.simps)
  apply (simp split: if_split_asm option.split_asm outcome.split_asm)
  apply (auto dest: copy_assign_elem_Returns)
  done

lemma copy_assign_loop_Returns:
  "copy_assign_loop d r i bound w = Returns u (d', w') \<Longrightarrow>
     capacity' d' = capacity' d \<and> length (buffer' d') = length (buffer' d)
     \<and> (\<forall>j. i \<le> j \<and> j < bound \<longrightarrow> read (buffer' d') j = read (buffer' r) j \<and> read (buffer' r) j \<noteq> None)
     \<and> (\<forall>j. j < i \<or> bound \<le> j \<longrightarrow> buffer' d' ! j = buffer' d ! j)
     \<and> (\<forall>j. (read (buffer' d') j = None) = (read (buffer' d) j = None))
     \<and> alloc_budget w' = alloc_budget w \<and> (budget w = None \<longrightarrow> budget w' = None)"
proof (induction "bound - i" arbitrary: d i w)
  case 0
  then have nb: "\<not> i < bound" by simp
  from copy_assign_loop_base[OF nb, of d r w] "0.prems" nb show ?case by auto
next
  case (Suc n)
  then have lt: "i < bound" by simp
  from copy_assign_loop_step_Returns[OF lt Suc.prems] obtain x z w1 where
    rx: "read (buffer' r) i = Some x" and rz: "read (buffer' d) i = Some z"
    and ca: "copy_assign_elem x w = Returns x w1"
    and rec: "copy_assign_loop (d\<lparr>buffer' := (buffer' d)[i := Live x]\<rparr>) r (Suc i) bound w1 = Returns u (d', w')"
    by blast
  have "n = bound - Suc i" using Suc.hyps(2) by simp
  note IH = Suc.hyps(1)[OF this rec]
  have li: "i < length (buffer' d)" using rz by (simp add: read_Some)
  have A: "\<forall>j. i \<le> j \<and> j < bound \<longrightarrow> read (buffer' d') j = read (buffer' r) j \<and> read (buffer' r) j \<noteq> None"
  proof (intro allI impI)
    fix j assume j: "i \<le> j \<and> j < bound"
    show "read (buffer' d') j = read (buffer' r) j \<and> read (buffer' r) j \<noteq> None"
    proof (cases "j = i")
      case True
      have "buffer' d' ! i = (buffer' d)[i := Live x] ! i" using IH by simp
      then have "read (buffer' d') i = Some x" using li IH by (simp add: read_def)
      then show ?thesis using True rx by simp
    next
      case False
      then show ?thesis using IH j by simp
    qed
  qed
  have B: "\<forall>j. j < i \<or> bound \<le> j \<longrightarrow> buffer' d' ! j = buffer' d ! j"
    using IH lt by auto
  have C: "\<forall>j. (read (buffer' d') j = None) = (read (buffer' d) j = None)"
    using IH rz by (auto simp: read_update)
  from copy_assign_elem_Returns[OF ca] IH A B C show ?case by simp
qed

lemma copy_assign_loop_Throws:
  "copy_assign_loop d r i bound w = Throws e (d', w') \<Longrightarrow>
     capacity' d' = capacity' d \<and> length (buffer' d') = length (buffer' d)
     \<and> (\<forall>j. (read (buffer' d') j = None) = (read (buffer' d) j = None))"
proof (induction "bound - i" arbitrary: d i w)
  case 0
  then have "\<not> i < bound" by simp
  from copy_assign_loop_base[OF this, of d r w] "0.prems" show ?case by simp
next
  case (Suc n)
  then have lt: "i < bound" by simp
  have n: "n = bound - Suc i" using Suc.hyps(2) by simp
  from copy_assign_loop_step_Throws[OF lt Suc.prems] show ?case
  proof
    assume "d' = d"
    then show ?thesis by simp
  next
    assume "\<exists>x z w1. read (buffer' r) i = Some x \<and> read (buffer' d) i = Some z
      \<and> copy_assign_loop (d\<lparr>buffer' := (buffer' d)[i := Live x]\<rparr>) r (Suc i) bound w1 = Throws e (d', w')"
    then obtain x z w1 where rz: "read (buffer' d) i = Some z"
      and rec: "copy_assign_loop (d\<lparr>buffer' := (buffer' d)[i := Live x]\<rparr>) r (Suc i) bound w1 = Throws e (d', w')"
      by blast
    from Suc.hyps(1)[OF n rec] rz show ?thesis by (auto simp: read_update)
  qed
qed

lemma copy_assign_loop_total:
  "\<forall>j. i \<le> j \<and> j < bound \<longrightarrow> read (buffer' r) j \<noteq> None \<and> read (buffer' d) j \<noteq> None
           \<and> j < capacity' d \<and> j < capacity' r \<Longrightarrow> budget w = None \<Longrightarrow>
     \<exists>d'. copy_assign_loop d r i bound w = Returns () (d', w)"
proof (induction "bound - i" arbitrary: d i)
  case 0
  then have "\<not> i < bound" by simp
  from copy_assign_loop_base[OF this, of d r w] show ?case by simp
next
  case (Suc n)
  then have lt: "i < bound" by simp
  have n: "n = bound - Suc i" using Suc.hyps(2) by simp
  from Suc.prems(1)[rule_format, of i] lt obtain x z where
    rx: "read (buffer' r) i = Some x" and rz: "read (buffer' d) i = Some z"
    and so: "subscript_ok d i" "subscript_ok r i" by (auto simp: subscript_ok_def)
  have ca: "copy_assign_elem x w = Returns x w" using Suc.prems(2) by (simp add: copy_assign_elem_def fallible_None)
  have "\<forall>j. Suc i \<le> j \<and> j < bound \<longrightarrow> read (buffer' r) j \<noteq> None
      \<and> read (buffer' (d\<lparr>buffer' := (buffer' d)[i := Live x]\<rparr>)) j \<noteq> None
      \<and> j < capacity' (d\<lparr>buffer' := (buffer' d)[i := Live x]\<rparr>) \<and> j < capacity' r"
    using Suc.prems(1) by (auto simp: read_update)
  from Suc.hyps(1)[OF n this Suc.prems(2)] obtain d' where
    "copy_assign_loop (d\<lparr>buffer' := (buffer' d)[i := Live x]\<rparr>) r (Suc i) bound w = Returns () (d', w)"
    by blast
  then show ?case using lt rx rz so ca by (subst copy_assign_loop.simps) simp
qed

subsection \<open>Construction\<close>

lemma Vector_sized_Returns:
  assumes r: "Vector_sized tr n w = Returns v w'"
  shows "invariant v \<and> size' v = n \<and> Capacity v = n \<and> elements v = replicate n (Some (value_init tr))"
proof -
  from r obtain d w1 buf where
    al: "RawMemory_new tr n w = Returns d w1"
    and vc: "uninitialized_value_construct_n tr (buffer' d) 0 n w1 = Returns () (buf, w')"
    and v: "v = \<lparr>data' = d\<lparr>buffer' := buf\<rparr>, size' = n\<rparr>"
    unfolding Vector_sized_def
    by (simp split: outcome.split_asm prod.split_asm)
  note V = uninitialized_value_construct_n_Returns[OF vc]
  from RawMemory_new_Returns[OF al]
  have d0: "d = \<lparr>buffer' = replicate (byte_count tr n div sizeof tr) Raw, capacity' = n\<rparr>" by simp
  have "n \<le> byte_count tr n div sizeof tr"
  proof (cases n)
    case 0
    then show ?thesis by simp
  next
    case (Suc m)
    then have "0 + m < length (buffer' d)" using V by simp
    with Suc d0 show ?thesis by simp
  qed
  with byte_count_short[of tr n] have "byte_count tr n div sizeof tr = n" by simp
  with d0 have d: "d = \<lparr>buffer' = replicate n Raw, capacity' = n\<rparr>" by simp
  have len: "length buf = n" using V d by simp
  have val: "\<forall>i<n. read buf i = Some (value_init tr)" using V by simp
  have inv: "invariant v" unfolding invariant_iff using v d len val by simp
  have "elements v = replicate n (Some (value_init tr))"
    by (rule nth_equalityI) (use v d val in \<open>auto simp: elements_def subscript_def subscript_ok_def\<close>)
  with inv v d show ?thesis by (simp add: Capacity_def)
qed

lemma Vector_copy_Returns:
  assumes inv: "invariant other" and r: "Vector_copy other w = Returns v w'"
  shows "invariant v \<and> size' v = size' other \<and> Capacity v = size' other \<and> elements v = elements other
     \<and> (alloc_budget w = None \<longrightarrow> alloc_budget w' = None) \<and> (budget w = None \<longrightarrow> budget w' = None)"
proof -
  define n where "n = size' other"
  from r obtain d w1 buf where
    al: "RawMemory_exact n w = Returns d w1"
    and cp: "uninitialized_copy_n (buffer' (data' other)) 0 n (buffer' d) 0 w1 = Returns () (buf, w')"
    and v: "v = \<lparr>data' = d\<lparr>buffer' := buf\<rparr>, size' = n\<rparr>"
    unfolding Vector_copy_def n_def
    by (simp split: outcome.split_asm prod.split_asm)
  from RawMemory_exact_Returns[OF al] have d: "d = \<lparr>buffer' = replicate n Raw, capacity' = n\<rparr>"
    and W1: "budget w1 = budget w" "alloc_budget w = None \<longrightarrow> alloc_budget w1 = None" by simp_all
  note C = uninitialized_copy_n_Returns[OF cp]
  have len: "length buf = n" using C d by simp
  have val: "\<forall>i<n. read buf i = read (buffer' (data' other)) i \<and> read (buffer' (data' other)) i \<noteq> None"
    using C by simp
  have inv': "invariant v" unfolding invariant_iff using v d len val by simp
  have "\<forall>i<n. subscript v i = subscript other i"
    using val v d inv by (auto simp: subscript_def subscript_ok_def invariant_def n_def)
  then have "elements v = elements other" using v by (simp add: elements_eq_iff n_def)
  with inv' v d uninitialized_copy_n_counters[OF cp] W1 show ?thesis by (simp add: Capacity_def n_def)
qed

lemma Vector_copy_total:
  assumes inv: "invariant other" and nf: "budget w = None" "alloc_budget w = None"
  shows "\<exists>v w'. Vector_copy other w = Returns v w'"
proof -
  have al: "RawMemory_exact (size' other) w
      = Returns \<lparr>buffer' = replicate (size' other) (Raw :: 'a slot), capacity' = size' other\<rparr> w"
    using nf by (simp add: RawMemory_exact_None)
  have "0 + size' other \<le> length (replicate (size' other) (Raw :: 'a slot))" by simp
  from uninitialized_copy_n_total[OF invariant_live[OF inv] this nf(1)] obtain buf w' where
    "uninitialized_copy_n (buffer' (data' other)) 0 (size' other) (replicate (size' other) Raw) 0 w
       = Returns () (buf, w')" by blast
  with al show ?thesis by (simp add: Vector_copy_def)
qed

lemma Swap_eq:
  fixes v :: "'a Vector"
  shows "Swap v other = (other, v)"
  by (cases v, cases other, cases "data' v", cases "data' other") (simp add: Swap_def RawMemory_Swap_def)

subsection \<open>Removal at the end\<close>

lemma PopBack_Returns:
  assumes inv: "invariant v" and r: "PopBack v w = Returns u (v', w')"
  shows "invariant v' \<and> size' v' + 1 = size' v \<and> Capacity v' = Capacity v
     \<and> (\<forall>i<size' v'. subscript v' i = subscript v i)"
proof -
  from r obtain buf where nz: "size' v \<noteq> 0"
    and de: "destroy_at (buffer' (data' v)) (size' v - 1) w = Some (buf, w')"
    and v': "v' = v\<lparr>data' := (data' v)\<lparr>buffer' := buf\<rparr>, size' := size' v - 1\<rparr>"
    unfolding PopBack_def by (simp split: option.split_asm prod.split_asm if_split_asm)
  from destroy_at_Some[OF de] have buf: "buf = (buffer' (data' v))[size' v - 1 := Raw]" by simp
  have inv': "invariant v'"
    using inv nz unfolding invariant_iff v' buf by (auto simp: read_update)
  have "\<forall>i<size' v'. subscript v' i = subscript v i"
    using inv unfolding v' buf by (auto simp: subscript_def subscript_ok_def read_update)
  with inv' nz show ?thesis by (simp add: v' Capacity_def)
qed

lemma PopBack_total:
  assumes inv: "invariant v" and nz: "size' v \<noteq> 0"
  shows "\<exists>v' w'. PopBack v w = Returns () (v', w')"
proof -
  have "read (buffer' (data' v)) (size' v - 1) \<noteq> None"
    using invariant_live[OF inv, rule_format, of "size' v - 1"] nz by simp
  then show ?thesis using nz by (auto simp: PopBack_def destroy_at_def)
qed

subsection \<open>Operations that throw\<close>

lemma invariant_same_shape:
  assumes "invariant v" "length buf = length (buffer' (data' v))"
    "\<forall>i. (read buf i = None) = (read (buffer' (data' v)) i = None)"
  shows "invariant (v\<lparr>data' := (data' v)\<lparr>buffer' := buf\<rparr>\<rparr>)"
  using assms unfolding invariant_iff by simp

lemma relocate_Throws_invariant:
  assumes "invariant v" "length src = length (buffer' (data' v))"
    "\<forall>i. (read src i = None) = (read (buffer' (data' v)) i = None)"
    "relocate tr src first n dst d w = Throws e (old, new, w')"
  shows "invariant (v\<lparr>data' := (data' v)\<lparr>buffer' := old\<rparr>\<rparr>)"
  using relocate_Throws_shape[OF assms(4)] assms(2,3) by (intro invariant_same_shape[OF assms(1)]) simp_all

lemma relocate_Returns_shape:
  assumes "relocate tr src first n dst d w = Returns u (old, new, w')"
  shows "length old = length src \<and> (\<forall>i. (read old i = None) = (read src i = None))"
  using relocate_Returns[OF assms] by simp

lemma EmplaceBack_Throws_invariant:
  assumes inv: "invariant v" and r: "EmplaceBack tr a v w = Throws e (v', w')"
  shows "invariant v'"
  using r inv unfolding EmplaceBack_def relocate_def[symmetric]
  by (auto simp: RawMemory_Swap_def intro: relocate_Throws_invariant[OF inv refl]
           split: outcome.split_asm prod.split_asm option.split_asm if_split_asm)

lemma Reserve_Throws_invariant:
  assumes inv: "invariant v" and r: "Reserve tr n v w = Throws e (v', w')"
  shows "invariant v'"
  using r inv unfolding Reserve_def relocate_def[symmetric]
  by (auto simp: RawMemory_Swap_def intro: relocate_Throws_invariant[OF inv refl]
           split: outcome.split_asm prod.split_asm option.split_asm if_split_asm)

lemma EmplaceNoCapacity_Throws_invariant:
  assumes inv: "invariant v" and r: "EmplaceNoCapacity tr index (Outside a) v w = Throws e (v', w')"
  shows "invariant v'"
  using r inv unfolding EmplaceNoCapacity_def relocate_def[symmetric]
  by (auto simp: RawMemory_Swap_def
           intro: relocate_Throws_invariant[OF inv refl] relocate_Throws_invariant[OF inv]
           dest!: relocate_Returns_shape
           split: outcome.split_asm prod.split_asm option.split_asm if_split_asm)

lemma Erase_Throws_invariant:
  assumes inv: "invariant v" and r: "Erase tr p v w = Throws e (v', w')"
  shows "invariant v'"
proof -
  from r obtain buf where
    sm: "std_move tr (buffer' (data' v)) (p + 1) (size' v) p w = Throws e (buf, w')"
    and v': "v' = v\<lparr>data' := (data' v)\<lparr>buffer' := buf\<rparr>\<rparr>"
    unfolding Erase_def
    by (simp split: outcome.split_asm prod.split_asm option.split_asm if_split_asm)
  from sm have "move_n tr (buffer' (data' v)) (p + 1) (size' v - (p + 1)) p w = Throws e (buf, w')"
    by (auto simp: std_move_def split: if_splits)
  from move_n_Throws_shape[OF this] invariant_same_shape[OF inv, of buf] v' show ?thesis by simp
qed

subsection \<open>Copy assignment\<close>

lemma copy_assign_body_regrow_Returns:
  assumes invr: "invariant rhs" and big: "capacity' (data' v) < size' rhs"
    and r: "copy_assign_body v rhs w = Returns u (v', w')"
  shows "invariant v' \<and> elements v' = elements rhs \<and> size' v' = size' rhs"
proof -
  from r big obtain c w1 where cp: "Vector_copy rhs w = Returns c w1" and v': "v' = c"
    unfolding copy_assign_body_def
    by (simp add: Swap_eq split: outcome.split_asm prod.split_asm option.split_asm)
  from Vector_copy_Returns[OF invr cp] v' show ?thesis by simp
qed

lemma copy_assign_body_inplace_inv:
  assumes r: "copy_assign_body v rhs w = Returns u (v', w')"
    and small: "\<not> capacity' (data' v) < size' rhs"
  shows "\<exists>d1 w1 buf.
     copy_assign_loop (data' v) (data' rhs) 0 (min (size' rhs) (size' v)) w = Returns () (d1, w1)
     \<and> (if size' rhs < size' v
         then destroy_n (buffer' d1) (size' rhs) (size' v - size' rhs) w1 = Some (buf, w')
         else uninitialized_copy_n (buffer' (data' rhs)) (size' v) (size' rhs - size' v)
                (buffer' d1) (size' v) w1 = Returns () (buf, w'))
     \<and> v' = v\<lparr>data' := d1\<lparr>buffer' := buf\<rparr>, size' := size' rhs\<rparr>"
  using r small unfolding copy_assign_body_def
  by (simp split: outcome.split_asm prod.split_asm option.split_asm if_split_asm)

lemma copy_assign_body_inplace_Returns:
  assumes inv: "invariant v" and invr: "invariant rhs" and small: "\<not> capacity' (data' v) < size' rhs"
    and r: "copy_assign_body v rhs w = Returns u (v', w')"
  shows "invariant v' \<and> elements v' = elements rhs \<and> size' v' = size' rhs \<and> Capacity v' = Capacity v"
proof -
  define n where "n = size' v"
  define m where "m = size' rhs"
  define src where "src = buffer' (data' rhs)"
  define buf0 where "buf0 = buffer' (data' v)"
  from copy_assign_body_inplace_inv[OF r small] obtain d1 w1 buf where
    lp: "copy_assign_loop (data' v) (data' rhs) 0 (min m n) w = Returns () (d1, w1)"
    and tail: "if m < n then destroy_n (buffer' d1) m (n - m) w1 = Some (buf, w')
         else uninitialized_copy_n src n (m - n) (buffer' d1) n w1 = Returns () (buf, w')"
    and v': "v' = v\<lparr>data' := d1\<lparr>buffer' := buf\<rparr>, size' := m\<rparr>"
    unfolding n_def m_def src_def by blast
  note L = copy_assign_loop_Returns[OF lp]
  have cap: "capacity' d1 = capacity' (data' v)" and len1: "length (buffer' d1) = length buf0"
    using L by (simp_all add: buf0_def)
  have lo: "\<forall>j<min m n. read (buffer' d1) j = read src j" using L by (simp add: src_def)
  have sh: "\<forall>j. (read (buffer' d1) j = None) = (read buf0 j = None)" using L by (simp add: buf0_def)
  have I: "n \<le> length buf0" "length buf0 = capacity' (data' v)"
    "\<forall>i<length buf0. (read buf0 i \<noteq> None) = (i < n)"
    using inv by (simp_all add: invariant_iff n_def buf0_def)
  have Iraw: "\<forall>i<length buf0. \<not> i < n \<longrightarrow> read buf0 i = None"
    using I(3) by blast
  have R: "\<forall>i<m. read src i \<noteq> None" "m \<le> length src" "length src = capacity' (data' rhs)"
    using invr by (simp_all add: invariant_iff m_def src_def)
  have mc: "m \<le> length buf0" using small I by (simp add: m_def)
  have fin: "length buf = length buf0 \<and> (\<forall>i<m. read buf i = read src i)
      \<and> (\<forall>i. m \<le> i \<and> i < length buf0 \<longrightarrow> read buf i = None)"
  proof (cases "m < n")
    case True
    with tail have de: "destroy_n (buffer' d1) m (n - m) w1 = Some (buf, w')" by simp
    note D = destroy_n_Some[OF de]
    have a: "length buf = length buf0" using D len1 by simp
    have b: "\<forall>i<m. read buf i = read src i"
    proof (intro allI impI)
      fix i assume i: "i < m"
      then have "buf ! i = buffer' d1 ! i" using D by simp
      then have "read buf i = read (buffer' d1) i" using a len1 by (simp add: read_def)
      then show "read buf i = read src i" using lo i True by simp
    qed
    have c: "\<forall>i. m \<le> i \<and> i < length buf0 \<longrightarrow> read buf i = None"
    proof (intro allI impI)
      fix i assume i: "m \<le> i \<and> i < length buf0"
      show "read buf i = None"
      proof (cases "i < n")
        case True
        then have "buf ! i = Raw" using D i len1 \<open>m < n\<close> by simp
        then show ?thesis by (simp add: read_None)
      next
        case False
        then have "buf ! i = buffer' d1 ! i" using D \<open>m < n\<close> by simp
        then have "read buf i = read (buffer' d1) i" using a len1 by (simp add: read_def)
        also have "\<dots> = None" using sh Iraw i False by simp
        finally show ?thesis .
      qed
    qed
    from a b c show ?thesis by simp
  next
    case False
    with tail have cp: "uninitialized_copy_n src n (m - n) (buffer' d1) n w1 = Returns () (buf, w')" by simp
    note C = uninitialized_copy_n_Returns[OF cp]
    have a: "length buf = length buf0" using C len1 by simp
    have b: "\<forall>i<m. read buf i = read src i"
    proof (intro allI impI)
      fix i assume i: "i < m"
      show "read buf i = read src i"
      proof (cases "i < n")
        case True
        then have "buf ! i = buffer' d1 ! i" using C by simp
        then have "read buf i = read (buffer' d1) i" using a len1 by (simp add: read_def)
        then show ?thesis using lo i True by simp
      next
        case ge: False
        then have "i - n < m - n" using i by arith
        then have "read buf (n + (i - n)) = read src (n + (i - n))" using C by blast
        then show ?thesis using ge by simp
      qed
    qed
    have c: "\<forall>i. m \<le> i \<and> i < length buf0 \<longrightarrow> read buf i = None"
    proof (intro allI impI)
      fix i assume i: "m \<le> i \<and> i < length buf0"
      then have "n + (m - n) \<le> i" using False by arith
      then have "buf ! i = buffer' d1 ! i" using C by simp
      then have "read buf i = read (buffer' d1) i" using a len1 by (simp add: read_def)
      also have "\<dots> = None" using sh Iraw i False by simp
      finally show "read buf i = None" .
    qed
    from a b c show ?thesis by simp
  qed
  have bv': "buffer' (data' v') = buf" "capacity' (data' v') = capacity' (data' v)" "size' v' = m"
    using cap by (simp_all add: v')
  have inv': "invariant v'"
    unfolding invariant_iff
  proof (intro conjI allI impI)
    show "size' v' \<le> capacity' (data' v')" using bv' mc I by simp
    show "length (buffer' (data' v')) = capacity' (data' v')" using bv' fin I by simp
  next
    fix i assume "i < capacity' (data' v')"
    then have "i < length buf0" using bv' I by simp
    then show "(read (buffer' (data' v')) i \<noteq> None) = (i < size' v')"
      using fin R bv' by (cases "i < m") auto
  qed
  have "\<forall>i<m. subscript v' i = subscript rhs i"
    using fin bv' mc I R by (auto simp: subscript_def subscript_ok_def src_def m_def)
  then have "elements v' = elements rhs" using bv' by (simp add: elements_eq_iff m_def)
  with inv' bv' show ?thesis by (simp add: Capacity_def m_def)
qed

lemma copy_assign_body_Returns:
  assumes "invariant v" "invariant rhs" "copy_assign_body v rhs w = Returns u (v', w')"
  shows "invariant v' \<and> elements v' = elements rhs \<and> size' v' = size' rhs"
  using copy_assign_body_regrow_Returns[OF assms(2) _ assms(3)]
    copy_assign_body_inplace_Returns[OF assms(1,2) _ assms(3)]
  by (cases "capacity' (data' v) < size' rhs") simp_all

lemma copy_assign_body_Throws_invariant:
  assumes inv: "invariant v" and r: "copy_assign_body v rhs w = Throws e (v', w')"
  shows "invariant v'"
proof (cases "capacity' (data' v) < size' rhs")
  case True
  from copy_assign_body_regrow_Throws[OF True r] inv show ?thesis by simp
next
  case False
  from r False have
    "(\<exists>d1. copy_assign_loop (data' v) (data' rhs) 0 (min (size' rhs) (size' v)) w = Throws e (d1, w')
        \<and> v' = v\<lparr>data' := d1\<rparr>)
     \<or> (\<exists>d1 w1 buf. copy_assign_loop (data' v) (data' rhs) 0 (min (size' rhs) (size' v)) w = Returns () (d1, w1)
        \<and> \<not> size' rhs < size' v
        \<and> uninitialized_copy_n (buffer' (data' rhs)) (size' v) (size' rhs - size' v)
                (buffer' d1) (size' v) w1 = Throws e (buf, w')
        \<and> v' = v\<lparr>data' := d1\<lparr>buffer' := buf\<rparr>\<rparr>)"
    unfolding copy_assign_body_def
    by (simp split: outcome.split_asm prod.split_asm option.split_asm if_split_asm)
  then show ?thesis
  proof
    assume "\<exists>d1. copy_assign_loop (data' v) (data' rhs) 0 (min (size' rhs) (size' v)) w = Throws e (d1, w')
        \<and> v' = v\<lparr>data' := d1\<rparr>"
    then obtain d1 where
      lp: "copy_assign_loop (data' v) (data' rhs) 0 (min (size' rhs) (size' v)) w = Throws e (d1, w')"
      and v': "v' = v\<lparr>data' := d1\<rparr>" by blast
    from copy_assign_loop_Throws[OF lp] inv show ?thesis
      unfolding invariant_iff v' by simp
  next
    assume "\<exists>d1 w1 buf. copy_assign_loop (data' v) (data' rhs) 0 (min (size' rhs) (size' v)) w = Returns () (d1, w1)
        \<and> \<not> size' rhs < size' v
        \<and> uninitialized_copy_n (buffer' (data' rhs)) (size' v) (size' rhs - size' v)
                (buffer' d1) (size' v) w1 = Throws e (buf, w')
        \<and> v' = v\<lparr>data' := d1\<lparr>buffer' := buf\<rparr>\<rparr>"
    then obtain d1 w1 buf where
      lp: "copy_assign_loop (data' v) (data' rhs) 0 (min (size' rhs) (size' v)) w = Returns () (d1, w1)"
      and cp: "uninitialized_copy_n (buffer' (data' rhs)) (size' v) (size' rhs - size' v)
                (buffer' d1) (size' v) w1 = Throws e (buf, w')"
      and v': "v' = v\<lparr>data' := d1\<lparr>buffer' := buf\<rparr>\<rparr>" by blast
    note L = copy_assign_loop_Returns[OF lp]
    have "\<forall>i<size' rhs - size' v. size' v + i < length (buffer' d1) \<longrightarrow> buffer' d1 ! (size' v + i) = Raw"
    proof (intro allI impI)
      fix i assume "size' v + i < length (buffer' d1)"
      then have "size' v + i < capacity' (data' v)" using L inv by (simp add: invariant_def)
      moreover have "\<forall>j<capacity' (data' v). (read (buffer' (data' v)) j \<noteq> None) = (j < size' v)"
        using inv by (simp add: invariant_iff)
      ultimately have "read (buffer' (data' v)) (size' v + i) = None" by fastforce
      then have "read (buffer' d1) (size' v + i) = None" using L by simp
      then show "buffer' d1 ! (size' v + i) = Raw"
        using \<open>size' v + i < length (buffer' d1)\<close> by (simp add: read_None)
    qed
    from uninitialized_copy_n_Throws[OF cp this] have "buf = buffer' d1" .
    with L inv show ?thesis unfolding invariant_iff v' by simp
  qed
qed

lemma copy_assign_body_total:
  assumes inv: "invariant v" and invr: "invariant rhs"
    and nf: "budget w = None" "alloc_budget w = None"
  shows "\<exists>v' w'. copy_assign_body v rhs w = Returns () (v', w')"
proof (cases "capacity' (data' v) < size' rhs")
  case True
  from Vector_copy_total[OF invr nf] obtain c w1 where cp: "Vector_copy rhs w = Returns c w1" by blast
  from Vector_destructor_total[OF inv, of w1] obtain w2 where "Vector_destructor v w1 = Some w2" by auto
  with cp True show ?thesis by (simp add: copy_assign_body_def Swap_eq)
next
  case False
  define n where "n = size' v"
  define m where "m = size' rhs"
  have I: "\<forall>i<n. read (buffer' (data' v)) i \<noteq> None" "n \<le> capacity' (data' v)"
    "length (buffer' (data' v)) = capacity' (data' v)"
    using inv by (simp_all add: invariant_iff n_def)
  have R: "\<forall>i<m. read (buffer' (data' rhs)) i \<noteq> None" "m \<le> capacity' (data' rhs)"
    using invr by (simp_all add: invariant_iff m_def)
  have "\<forall>j. 0 \<le> j \<and> j < min m n \<longrightarrow> read (buffer' (data' rhs)) j \<noteq> None
      \<and> read (buffer' (data' v)) j \<noteq> None \<and> j < capacity' (data' v) \<and> j < capacity' (data' rhs)"
    using I R by auto
  from copy_assign_loop_total[OF this nf(1)] obtain d1 where
    lp: "copy_assign_loop (data' v) (data' rhs) 0 (min m n) w = Returns () (d1, w)" by blast
  note L = copy_assign_loop_Returns[OF lp]
  show ?thesis
  proof (cases "m < n")
    case True
    have "\<forall>i<n - m. read (buffer' d1) (m + i) \<noteq> None" using L I True by simp
    from destroy_n_total[OF this, of w] obtain buf where
      "destroy_n (buffer' d1) m (n - m) w = Some (buf, w\<lparr>dtors := dtors w + (n - m)\<rparr>)" by blast
    with lp True False show ?thesis
      by (simp add: copy_assign_body_def n_def[symmetric] m_def[symmetric])
  next
    case ge: False
    have 1: "\<forall>i<m - n. read (buffer' (data' rhs)) (n + i) \<noteq> None" using R by simp
    have 2: "n + (m - n) \<le> length (buffer' d1)" using L I False ge by (simp add: m_def)
    from uninitialized_copy_n_total[OF 1 2 nf(1)] obtain buf w' where
      "uninitialized_copy_n (buffer' (data' rhs)) n (m - n) (buffer' d1) n w = Returns () (buf, w')" by blast
    with lp ge False show ?thesis
      by (simp add: copy_assign_body_def n_def[symmetric] m_def[symmetric])
  qed
qed

subsection \<open>Resize\<close>

lemma Reserve_Returns_any:
  assumes inv: "invariant v" and r: "Reserve tr n v w = Returns u (v', w')"
    and nw: "0 < sizeof tr" "n * sizeof tr \<le> SIZE_MAX"
  shows "invariant v' \<and> size' v' = size' v \<and> elements v' = elements v \<and> n \<le> Capacity v'"
proof (cases "n \<le> Capacity v")
  case True
  with r have "v' = v" by (simp add: Reserve_noop)
  with inv True show ?thesis by simp
next
  case False
  then have "Capacity v < n" by simp
  from Reserve_Returns[OF inv this r nw] show ?thesis by simp
qed

lemma Resize_inv:
  assumes r: "Resize tr n v w = Returns u (v', w')"
  shows "\<exists>v1 w1 buf2 w2 buf3.
     Reserve tr n v w = Returns () (v1, w1)
     \<and> (if size' v1 < n
         then uninitialized_value_construct_n tr (buffer' (data' v1)) (size' v1) (n - size' v1) w1
                = Returns () (buf2, w2)
         else buf2 = buffer' (data' v1) \<and> w2 = w1)
     \<and> (if n < size' v1 then destroy_n buf2 n (size' v1 - n) w2 = Some (buf3, w')
         else buf3 = buf2 \<and> w' = w2)
     \<and> buffer' (data' v') = buf3 \<and> capacity' (data' v') = capacity' (data' v1) \<and> size' v' = n"
  using r unfolding Resize_def
  by (simp split: outcome.split_asm prod.split_asm option.split_asm if_split_asm) auto

lemma Resize_Returns:
  assumes inv: "invariant v" and r: "Resize tr n v w = Returns u (v', w')"
    and nw: "0 < sizeof tr" "n * sizeof tr \<le> SIZE_MAX"
  shows "invariant v' \<and> size' v' = n
     \<and> (\<forall>i<n. subscript v' i = (if i < size' v then subscript v i else Some (value_init tr)))"
proof -
  from Resize_inv[OF r] obtain v1 w1 buf2 w2 buf3 where
    rs: "Reserve tr n v w = Returns () (v1, w1)"
    and grow: "if size' v1 < n
         then uninitialized_value_construct_n tr (buffer' (data' v1)) (size' v1) (n - size' v1) w1
                = Returns () (buf2, w2)
         else buf2 = buffer' (data' v1) \<and> w2 = w1"
    and shrink: "if n < size' v1 then destroy_n buf2 n (size' v1 - n) w2 = Some (buf3, w')
         else buf3 = buf2 \<and> w' = w2"
    and v': "buffer' (data' v') = buf3" "capacity' (data' v') = capacity' (data' v1)" "size' v' = n"
    by blast
  note R = Reserve_Returns_any[OF inv rs nw]
  define m where "m = size' v1"
  define buf1 where "buf1 = buffer' (data' v1)"
  define c where "c = capacity' (data' v1)"
  have I: "m \<le> c" "length buf1 = c" "\<forall>i<c. (read buf1 i \<noteq> None) = (i < m)"
    using R by (simp_all add: invariant_iff m_def buf1_def c_def)
  have Iraw: "\<forall>i<c. \<not> i < m \<longrightarrow> read buf1 i = None" using I(3) by blast
  have Ilive: "\<forall>i<m. read buf1 i \<noteq> None" using I by auto
  have nc: "n \<le> c" using R by (simp add: Capacity_def c_def)
  have sub1: "\<forall>i<m. subscript v1 i = subscript v i"
    using R by (simp add: elements_eq_iff m_def)
  have msz: "m = size' v" using R by (simp add: m_def)
  have fin: "length buf3 = c \<and> (\<forall>i<c. n \<le> i \<longrightarrow> read buf3 i = None)
     \<and> (\<forall>i<n. read buf3 i = (if i < m then read buf1 i else Some (value_init tr)))"
  proof (cases "m < n")
    case True
    with grow shrink have vc: "uninitialized_value_construct_n tr buf1 m (n - m) w1 = Returns () (buf2, w2)"
      and b3: "buf3 = buf2" by (simp_all add: m_def buf1_def)
    note V = uninitialized_value_construct_n_Returns[OF vc]
    have a: "length buf3 = c" using V I b3 by simp
    have b: "\<forall>i<c. n \<le> i \<longrightarrow> read buf3 i = None"
    proof (intro allI impI)
      fix i assume i: "i < c" "n \<le> i"
      then have "m + (n - m) \<le> i" using True by arith
      then have "buf2 ! i = buf1 ! i" using V by simp
      then have "read buf3 i = read buf1 i" using a I b3 by (simp add: read_def)
      also have "\<dots> = None" using Iraw i True by simp
      finally show "read buf3 i = None" .
    qed
    have d: "\<forall>i<n. read buf3 i = (if i < m then read buf1 i else Some (value_init tr))"
    proof (intro allI impI)
      fix i assume i: "i < n"
      show "read buf3 i = (if i < m then read buf1 i else Some (value_init tr))"
      proof (cases "i < m")
        case lt: True
        then have "buf2 ! i = buf1 ! i" using V by simp
        then have "read buf3 i = read buf1 i" using a I b3 by (simp add: read_def)
        with lt show ?thesis by simp
      next
        case ge: False
        then have "i - m < n - m" using i by arith
        then have "read buf2 (m + (i - m)) = Some (value_init tr)" using V by blast
        with ge b3 show ?thesis by simp
      qed
    qed
    from a b d show ?thesis by simp
  next
    case False
    with grow have b2: "buf2 = buf1" by (simp add: m_def buf1_def)
    show ?thesis
    proof (cases "n < m")
      case True
      with shrink b2 have de: "destroy_n buf1 n (m - n) w2 = Some (buf3, w')" by (simp add: m_def)
      note D = destroy_n_Some[OF de]
      have a: "length buf3 = c" using D I by simp
      have b: "\<forall>i<c. n \<le> i \<longrightarrow> read buf3 i = None"
      proof (intro allI impI)
        fix i assume i: "i < c" "n \<le> i"
        show "read buf3 i = None"
        proof (cases "i < m")
          case lt: True
          then have "buf3 ! i = Raw" using D i I True by simp
          then show ?thesis by (simp add: read_None)
        next
          case ge: False
          then have "buf3 ! i = buf1 ! i" using D True by simp
          then have "read buf3 i = read buf1 i" using a I by (simp add: read_def)
          also have "\<dots> = None" using Iraw i ge by simp
          finally show ?thesis .
        qed
      qed
      have d: "\<forall>i<n. read buf3 i = (if i < m then read buf1 i else Some (value_init tr))"
      proof (intro allI impI)
        fix i assume i: "i < n"
        then have "buf3 ! i = buf1 ! i" using D by simp
        then have "read buf3 i = read buf1 i" using a I by (simp add: read_def)
        with i True show "read buf3 i = (if i < m then read buf1 i else Some (value_init tr))" by simp
      qed
      from a b d show ?thesis by simp
    next
      case eq: False
      with shrink b2 have "buf3 = buf1" by (simp add: m_def)
      moreover have "n = m" using False eq by simp
      ultimately show ?thesis using I Iraw by simp
    qed
  qed
  have bv': "buffer' (data' v') = buf3" "capacity' (data' v') = c" "size' v' = n"
    by (simp_all add: v' c_def)
  have inv': "invariant v'"
    unfolding invariant_iff
  proof (intro conjI allI impI)
    show "size' v' \<le> capacity' (data' v')" using bv' nc by simp
    show "length (buffer' (data' v')) = capacity' (data' v')" using bv' fin by simp
  next
    fix i assume i: "i < capacity' (data' v')"
    show "(read (buffer' (data' v')) i \<noteq> None) = (i < size' v')"
    proof (cases "i < n")
      case True
      then show ?thesis using fin Ilive bv' by auto
    next
      case False
      then show ?thesis using fin i bv' by simp
    qed
  qed
  have "\<forall>i<n. subscript v' i = (if i < m then subscript v1 i else Some (value_init tr))"
  proof (intro allI impI)
    fix i assume i: "i < n"
    then have 1: "subscript v' i = read buf3 i" using bv' nc by (simp add: subscript_def subscript_ok_def)
    have 2: "i < m \<Longrightarrow> subscript v1 i = read buf1 i"
      using I by (simp add: subscript_def subscript_ok_def m_def buf1_def c_def)
    from fin i have "read buf3 i = (if i < m then read buf1 i else Some (value_init tr))" by blast
    with 1 2 show "subscript v' i = (if i < m then subscript v1 i else Some (value_init tr))" by simp
  qed
  with sub1 msz have "\<forall>i<n. subscript v' i = (if i < size' v then subscript v i else Some (value_init tr))"
    by auto
  with inv' bv' show ?thesis by simp
qed

lemma Resize_Throws_invariant:
  assumes inv: "invariant v" and r: "Resize tr n v w = Throws e (v', w')"
    and nw: "0 < sizeof tr" "n * sizeof tr \<le> SIZE_MAX"
  shows "invariant v'"
proof -
  from r have
    "Reserve tr n v w = Throws e (v', w')
     \<or> (\<exists>v1 w1 buf2. Reserve tr n v w = Returns () (v1, w1) \<and> size' v1 < n
          \<and> uninitialized_value_construct_n tr (buffer' (data' v1)) (size' v1) (n - size' v1) w1
               = Throws e (buf2, w')
          \<and> v' = v1\<lparr>data' := (data' v1)\<lparr>buffer' := buf2\<rparr>\<rparr>)"
    unfolding Resize_def
    by (simp split: outcome.split_asm prod.split_asm option.split_asm if_split_asm)
  then show ?thesis
  proof
    assume "Reserve tr n v w = Throws e (v', w')"
    from Reserve_Throws_invariant[OF inv this] show ?thesis .
  next
    assume "\<exists>v1 w1 buf2. Reserve tr n v w = Returns () (v1, w1) \<and> size' v1 < n
          \<and> uninitialized_value_construct_n tr (buffer' (data' v1)) (size' v1) (n - size' v1) w1
               = Throws e (buf2, w')
          \<and> v' = v1\<lparr>data' := (data' v1)\<lparr>buffer' := buf2\<rparr>\<rparr>"
    then obtain v1 w1 buf2 where rs: "Reserve tr n v w = Returns () (v1, w1)"
      and vc: "uninitialized_value_construct_n tr (buffer' (data' v1)) (size' v1) (n - size' v1) w1
               = Throws e (buf2, w')"
      and v': "v' = v1\<lparr>data' := (data' v1)\<lparr>buffer' := buf2\<rparr>\<rparr>" by blast
    note R = Reserve_Returns_any[OF inv rs nw]
    have I: "length (buffer' (data' v1)) = capacity' (data' v1)"
      "\<forall>j<capacity' (data' v1). (read (buffer' (data' v1)) j \<noteq> None) = (j < size' v1)"
      using R by (simp_all add: invariant_iff)
    have "\<forall>i<n - size' v1. size' v1 + i < length (buffer' (data' v1))
        \<longrightarrow> buffer' (data' v1) ! (size' v1 + i) = Raw"
    proof (intro allI impI)
      fix i assume "size' v1 + i < length (buffer' (data' v1))"
      then have lt: "size' v1 + i < capacity' (data' v1)" using I by simp
      with I(2) have "read (buffer' (data' v1)) (size' v1 + i) = None" by fastforce
      then show "buffer' (data' v1) ! (size' v1 + i) = Raw" using lt I by (simp add: read_None)
    qed
    from uninitialized_value_construct_n_Throws[OF vc this] have "buf2 = buffer' (data' v1)" .
    with R show ?thesis by (simp add: v')
  qed
qed

lemma Resize_total:
  assumes inv: "invariant v" and nf: "budget w = None" "alloc_budget w = None"
    and nw: "0 < sizeof tr" "n * sizeof tr \<le> SIZE_MAX"
  shows "\<exists>v' w'. Resize tr n v w = Returns () (v', w')"
proof -
  from Reserve_total[OF inv nf nw] obtain v1 w1 where rs: "Reserve tr n v w = Returns () (v1, w1)" by blast
  note R = Reserve_Returns_any[OF inv rs nw]
  have nf1: "budget w1 = None"
  proof (cases "n \<le> Capacity v")
    case True
    with rs nf show ?thesis by (simp add: Reserve_noop)
  next
    case False
    then have "Capacity v < n" by simp
    from Reserve_counters[OF rs this] nf show ?thesis by simp
  qed
  have I: "length (buffer' (data' v1)) = capacity' (data' v1)"
    "\<forall>j<capacity' (data' v1). (read (buffer' (data' v1)) j \<noteq> None) = (j < size' v1)"
    "size' v1 \<le> capacity' (data' v1)"
    using R by (simp_all add: invariant_iff)
  have nc: "n \<le> capacity' (data' v1)" using R by (simp add: Capacity_def)
  show ?thesis
  proof (cases "size' v1 < n")
    case True
    then have "size' v1 + (n - size' v1) \<le> length (buffer' (data' v1))" using nc I by simp
    from uninitialized_value_construct_n_total[OF this nf1] obtain buf2 w2 where
      "uninitialized_value_construct_n tr (buffer' (data' v1)) (size' v1) (n - size' v1) w1
         = Returns () (buf2, w2)" by blast
    with rs True show ?thesis by (simp add: Resize_def)
  next
    case False
    show ?thesis
    proof (cases "n < size' v1")
      case True
      have "\<forall>i<size' v1 - n. read (buffer' (data' v1)) (n + i) \<noteq> None" using I by auto
      from destroy_n_total[OF this, of w1] obtain buf3 where
        "destroy_n (buffer' (data' v1)) n (size' v1 - n) w1
           = Some (buf3, w1\<lparr>dtors := dtors w1 + (size' v1 - n)\<rparr>)" by blast
      with rs True False show ?thesis by (simp add: Resize_def)
    next
      case eq: False
      with rs False show ?thesis by (simp add: Resize_def)
    qed
  qed
qed

lemma Vector_sized_total:
  assumes nf: "budget w = None" "alloc_budget w = None"
    and nw: "0 < sizeof tr" "n * sizeof tr \<le> SIZE_MAX"
  shows "\<exists>v w'. Vector_sized tr n w = Returns v w'"
proof -
  have al: "RawMemory_new tr n w = Returns \<lparr>buffer' = replicate n (Raw :: 'a slot), capacity' = n\<rparr> w"
    using nf by (simp add: RawMemory_new_exact[OF nw] RawMemory_exact_None)
  have "0 + n \<le> length (replicate n (Raw :: 'a slot))" by simp
  from uninitialized_value_construct_n_total[OF this nf(1), of tr] obtain buf w' where
    "uninitialized_value_construct_n tr (replicate n Raw) 0 n w = Returns () (buf, w')" by blast
  with al show ?thesis by (simp add: Vector_sized_def)
qed

subsection \<open>References and arguments outside the container\<close>

text \<open>
  A positional insert that is given a reference behaves, unless it is undefined, like the
  insert that is given what the constructor has found behind the reference.
\<close>

lemma EmplaceEnoughtCapacity_as_Outside:
  assumes d: "EmplaceEnoughtCapacity tr index r v w \<noteq> Undefined"
  shows "\<exists>a. EmplaceEnoughtCapacity tr index r v w = EmplaceEnoughtCapacity tr index (Outside a) v w"
proof (cases "size' v = 0 \<or> \<not> subscript_ok (data' v) (size' v - 1)")
  case True
  then show ?thesis by (simp add: EmplaceEnoughtCapacity_def)
next
  case c1: False
  show ?thesis
  proof (cases "read (buffer' (data' v)) (size' v - 1)")
    case None
    with c1 show ?thesis by (simp add: EmplaceEnoughtCapacity_def)
  next
    case (Some x)
    show ?thesis
    proof (cases "size' v < length (buffer' (data' v))")
      case False
      with c1 Some show ?thesis by (simp add: EmplaceEnoughtCapacity_def)
    next
      case c3: True
      show ?thesis
      proof (cases "move_construct tr x w")
        case (Returns yx w1)
        obtain y x' where yx: "yx = (y, x')" by (cases yx)
        show ?thesis
        proof (cases "std_move_backward tr ((buffer' (data' v))[size' v - 1 := Live x', size' v := Live y])
                         index (size' v - 1) (size' v) w1")
          case mb: (Returns u bw)
          obtain buf2 w2 where bw: "bw = (buf2, w2)" by (cases bw)
          show ?thesis
          proof (cases "referent buf2 (size' v) r")
            case None
            with c1 Some c3 Returns yx mb bw have "EmplaceEnoughtCapacity tr index r v w = Undefined"
              by (simp add: EmplaceEnoughtCapacity_def)
            with d show ?thesis by simp
          next
            case rf: (Some a)
            with c1 Some c3 Returns yx mb bw
            have "EmplaceEnoughtCapacity tr index r v w = EmplaceEnoughtCapacity tr index (Outside a) v w"
              by (simp add: EmplaceEnoughtCapacity_def)
            then show ?thesis by blast
          qed
        next
          case (Throws e bw)
          with c1 Some c3 Returns yx show ?thesis by (simp add: EmplaceEnoughtCapacity_def)
        next
          case Undefined
          with c1 Some c3 Returns yx show ?thesis by (simp add: EmplaceEnoughtCapacity_def)
        qed
      next
        case (Throws e w1)
        with c1 Some c3 show ?thesis by (simp add: EmplaceEnoughtCapacity_def)
      next
        case Undefined
        with c1 Some c3 show ?thesis by (simp add: EmplaceEnoughtCapacity_def)
      qed
    qed
  qed
qed

lemma EmplaceNoCapacity_as_Outside:
  assumes d: "EmplaceNoCapacity tr index r v w \<noteq> Undefined"
  shows "\<exists>a. EmplaceNoCapacity tr index r v w = EmplaceNoCapacity tr index (Outside a) v w"
proof (cases "referent (buffer' (data' v)) (size' v) r")
  case (Some a)
  from EmplaceNoCapacity_referent[OF Some] show ?thesis by blast
next
  case None
  show ?thesis
  proof (cases "index > size' v")
    case True
    then show ?thesis by (simp add: EmplaceNoCapacity_def)
  next
    case False
    show ?thesis
    proof (cases "RawMemory_exact (if Capacity v = 0 then 1 else size' v * 2) w :: ('a RawMemory, world) outcome")
      case (Returns new_data w1)
      with None False have "EmplaceNoCapacity tr index r v w = Undefined"
        by (simp add: EmplaceNoCapacity_def)
      with d show ?thesis by simp
    next
      case (Throws e w1)
      with False show ?thesis by (simp add: EmplaceNoCapacity_def)
    next
      case Undefined
      with False show ?thesis by (simp add: EmplaceNoCapacity_def)
    qed
  qed
qed

lemma Emplace_as_Outside:
  assumes d: "Emplace tr p r v w \<noteq> Undefined"
  shows "\<exists>a. Emplace tr p r v w = Emplace tr p (Outside a) v w"
proof (cases "p = size' v")
  case True
  show ?thesis
  proof (cases "referent (buffer' (data' v)) (size' v) r")
    case None
    with True d show ?thesis by (simp add: Emplace_def)
  next
    case (Some a)
    with True have "Emplace tr p r v w = Emplace tr p (Outside a) v w" by (simp add: Emplace_def)
    then show ?thesis by blast
  qed
next
  case False
  show ?thesis
  proof (cases "size' v < Capacity v")
    case True
    with False d have "EmplaceEnoughtCapacity tr p r v w \<noteq> Undefined" by (simp add: Emplace_def)
    from EmplaceEnoughtCapacity_as_Outside[OF this] False True show ?thesis by (simp add: Emplace_def)
  next
    case nr: False
    with False d have "EmplaceNoCapacity tr p r v w \<noteq> Undefined" by (simp add: Emplace_def)
    from EmplaceNoCapacity_as_Outside[OF this] False nr show ?thesis by (simp add: Emplace_def)
  qed
qed

lemma Emplace_Returns_invariant:
  assumes inv: "invariant v" and r: "Emplace tr p r v w = Returns k (v', w')"
  shows "invariant v' \<and> size' v' = size' v + 1 \<and> k = p"
proof -
  from r have "Emplace tr p r v w \<noteq> Undefined" by simp
  from Emplace_as_Outside[OF this] r obtain a where
    "Emplace tr p (Outside a) v w = Returns k (v', w')" by auto
  from Emplace_Returns[OF inv this] show ?thesis by simp
qed

subsection \<open>Preservation of the invariant\<close>

text \<open>
  Every operation that returns leaves the invariant intact; so does every operation that
  throws, except the positional insert on its in-place path. For \<open>Reserve\<close> and
  \<open>Resize\<close> the byte count of the request must not wrap.
\<close>

lemma invariant_on_return:
  fixes v rhs :: "'a Vector"
  assumes inv: "invariant v" and invr: "invariant rhs"
  shows "Vector_sized tr n w = Returns c w' \<Longrightarrow> invariant c"
    and "Vector_copy v w = Returns c w' \<Longrightarrow> invariant c"
    and "Vector_move v = (c, v') \<Longrightarrow> invariant c \<and> invariant v'"
    and "Swap v rhs = (v', rhs') \<Longrightarrow> invariant v' \<and> invariant rhs'"
    and "copy_assign_body v rhs w = Returns u (v', w') \<Longrightarrow> invariant v'"
    and "Reserve tr n v w = Returns u (v', w') \<Longrightarrow> 0 < sizeof tr \<Longrightarrow> n * sizeof tr \<le> SIZE_MAX
           \<Longrightarrow> invariant v'"
    and "Resize tr n v w = Returns u (v', w') \<Longrightarrow> 0 < sizeof tr \<Longrightarrow> n * sizeof tr \<le> SIZE_MAX
           \<Longrightarrow> invariant v'"
    and "EmplaceBack tr a v w = Returns k (v', w') \<Longrightarrow> invariant v'"
    and "PushBack tr a v w = Returns u (v', w') \<Longrightarrow> invariant v'"
    and "PopBack v w = Returns u (v', w') \<Longrightarrow> invariant v'"
    and "Emplace tr p r v w = Returns k (v', w') \<Longrightarrow> invariant v'"
    and "Erase tr p v w = Returns k (v', w') \<Longrightarrow> invariant v'"
proof -
  show "Vector_sized tr n w = Returns c w' \<Longrightarrow> invariant c"
    using Vector_sized_Returns by blast
  show "Vector_copy v w = Returns c w' \<Longrightarrow> invariant c"
    using Vector_copy_Returns[OF inv] by blast
  show "Vector_move v = (c, v') \<Longrightarrow> invariant c \<and> invariant v'"
    using inv by (simp add: Vector_move_eq invariant_default)
  show "Swap v rhs = (v', rhs') \<Longrightarrow> invariant v' \<and> invariant rhs'"
    using inv invr by (simp add: Swap_eq)
  show "copy_assign_body v rhs w = Returns u (v', w') \<Longrightarrow> invariant v'"
    using copy_assign_body_Returns[OF inv invr] by blast
  show "Reserve tr n v w = Returns u (v', w') \<Longrightarrow> 0 < sizeof tr \<Longrightarrow> n * sizeof tr \<le> SIZE_MAX
           \<Longrightarrow> invariant v'"
    using Reserve_Returns_any[OF inv] by blast
  show "Resize tr n v w = Returns u (v', w') \<Longrightarrow> 0 < sizeof tr \<Longrightarrow> n * sizeof tr \<le> SIZE_MAX
           \<Longrightarrow> invariant v'"
    using Resize_Returns[OF inv] by blast
  show "EmplaceBack tr a v w = Returns k (v', w') \<Longrightarrow> invariant v'"
    using EmplaceBack_Returns[OF inv] by blast
  show "PushBack tr a v w = Returns u (v', w') \<Longrightarrow> invariant v'"
    using EmplaceBack_Returns[OF inv] by (auto simp: PushBack_Returns)
  show "PopBack v w = Returns u (v', w') \<Longrightarrow> invariant v'"
    using PopBack_Returns[OF inv] by blast
  show "Emplace tr p r v w = Returns k (v', w') \<Longrightarrow> invariant v'"
    using Emplace_Returns_invariant[OF inv] by blast
  show "Erase tr p v w = Returns k (v', w') \<Longrightarrow> invariant v'"
    using Erase_Returns[OF inv] by blast
qed

lemma PushBack_Throws: "PushBack tr a v w = Throws e s \<longleftrightarrow> EmplaceBack tr a v w = Throws e s"
  by (auto simp: PushBack_def split: outcome.splits)

lemma Emplace_Throws_invariant:
  assumes inv: "invariant v" and r: "Emplace tr p r v w = Throws e (v', w')"
    and path: "p = size' v \<or> size' v = Capacity v"
  shows "invariant v'"
proof -
  from r have "Emplace tr p r v w \<noteq> Undefined" by simp
  from Emplace_as_Outside[OF this] r obtain a where
    ra: "Emplace tr p (Outside a) v w = Throws e (v', w')" by auto
  show ?thesis
  proof (cases "p = size' v")
    case True
    with ra have "EmplaceBack tr a v w = Throws e (v', w')"
      by (auto simp: Emplace_def split: outcome.split_asm prod.split_asm)
    from EmplaceBack_Throws_invariant[OF inv this] show ?thesis .
  next
    case False
    with path have "\<not> size' v < Capacity v" by simp
    with ra False have "EmplaceNoCapacity tr p (Outside a) v w = Throws e (v', w')" by (simp add: Emplace_def)
    from EmplaceNoCapacity_Throws_invariant[OF inv this] show ?thesis .
  qed
qed

lemma invariant_on_throw:
  fixes v rhs :: "'a Vector"
  assumes inv: "invariant v" and invr: "invariant rhs"
  shows "copy_assign_body v rhs w = Throws e (v', w') \<Longrightarrow> invariant v'"
    and "Reserve tr n v w = Throws e (v', w') \<Longrightarrow> invariant v'"
    and "Resize tr n v w = Throws e (v', w') \<Longrightarrow> 0 < sizeof tr \<Longrightarrow> n * sizeof tr \<le> SIZE_MAX
           \<Longrightarrow> invariant v'"
    and "EmplaceBack tr a v w = Throws e (v', w') \<Longrightarrow> invariant v'"
    and "PushBack tr a v w = Throws e (v', w') \<Longrightarrow> invariant v'"
    and "Emplace tr p r v w = Throws e (v', w') \<Longrightarrow> p = size' v \<or> size' v = Capacity v \<Longrightarrow> invariant v'"
    and "Erase tr p v w = Throws e (v', w') \<Longrightarrow> invariant v'"
    and "PopBack v w \<noteq> Throws e (v', w')"
proof -
  show "copy_assign_body v rhs w = Throws e (v', w') \<Longrightarrow> invariant v'"
    using copy_assign_body_Throws_invariant[OF inv] by blast
  show "Reserve tr n v w = Throws e (v', w') \<Longrightarrow> invariant v'"
    using Reserve_Throws_invariant[OF inv] by blast
  show "Resize tr n v w = Throws e (v', w') \<Longrightarrow> 0 < sizeof tr \<Longrightarrow> n * sizeof tr \<le> SIZE_MAX
           \<Longrightarrow> invariant v'"
    using Resize_Throws_invariant[OF inv] by blast
  show "EmplaceBack tr a v w = Throws e (v', w') \<Longrightarrow> invariant v'"
    using EmplaceBack_Throws_invariant[OF inv] by blast
  show "PushBack tr a v w = Throws e (v', w') \<Longrightarrow> invariant v'"
    using EmplaceBack_Throws_invariant[OF inv] by (simp add: PushBack_Throws)
  show "Emplace tr p r v w = Throws e (v', w') \<Longrightarrow> p = size' v \<or> size' v = Capacity v \<Longrightarrow> invariant v'"
    using Emplace_Throws_invariant[OF inv] by blast
  show "Erase tr p v w = Throws e (v', w') \<Longrightarrow> invariant v'"
    using Erase_Throws_invariant[OF inv] by blast
  show "PopBack v w \<noteq> Throws e (v', w')"
    by (simp add: PopBack_def split: option.split prod.split)
qed

subsection \<open>Insert followed by erase\<close>

text \<open>
  With arguments outside the container, on either path of the insert: for a container that
  satisfies the invariant and holds \<open>[a, b, c]\<close>, an insert at position 1 that returns
  yields \<open>[a, x, b, c]\<close> with size 4, and an erase at position 1 that then returns yields
  \<open>[a, b, c]\<close> again with size 3. With no failure injected both calls return.
\<close>

lemma insert_erase_roundtrip_outside:
  assumes "invariant v" and "elements v = [Some a, Some b, Some c]"
  shows "(Emplace tr 1 (Outside x) v w = Returns k (v1, w1) \<longrightarrow>
            elements v1 = [Some a, Some (value_of x), Some b, Some c] \<and> size' v1 = 4 \<and> k = 1
            \<and> (Erase tr 1 v1 w1 = Returns k' (v2, w2) \<longrightarrow>
                 elements v2 = [Some a, Some b, Some c] \<and> size' v2 = 3 \<and> k' = 1))
       \<and> (budget w = None \<and> alloc_budget w = None \<longrightarrow>
            (\<exists>k v1 w1 k' v2 w2. Emplace tr 1 (Outside x) v w = Returns k (v1, w1)
               \<and> Erase tr 1 v1 w1 = Returns k' (v2, w2)))"
proof -
  have "length (elements v) = 3" using assms(2) by simp
  then have s3: "size' v = 3" by (simp add: elements_def)
  have A: "Emplace tr 1 (Outside x) v w = Returns k (v1, w1) \<longrightarrow>
            elements v1 = [Some a, Some (value_of x), Some b, Some c] \<and> size' v1 = 4 \<and> k = 1
            \<and> (Erase tr 1 v1 w1 = Returns k' (v2, w2) \<longrightarrow>
                 elements v2 = [Some a, Some b, Some c] \<and> size' v2 = 3 \<and> k' = 1)"
  proof
    assume r: "Emplace tr 1 (Outside x) v w = Returns k (v1, w1)"
    note E = Emplace_Returns[OF assms(1) r]
    from Emplace_elements[OF assms(1) r] assms(2)
    have e1: "elements v1 = [Some a, Some (value_of x), Some b, Some c]" by simp
    have i1: "invariant v1" using E by simp
    have B: "Erase tr 1 v1 w1 = Returns k' (v2, w2) \<longrightarrow>
                 elements v2 = [Some a, Some b, Some c] \<and> size' v2 = 3 \<and> k' = 1"
    proof
      assume r2: "Erase tr 1 v1 w1 = Returns k' (v2, w2)"
      from Erase_elements[OF i1 r2] e1 have "elements v2 = [Some a, Some b, Some c]" by simp
      moreover from Erase_Returns[OF i1 r2] E s3 have "size' v2 = 3" "k' = 1" by simp_all
      ultimately show "elements v2 = [Some a, Some b, Some c] \<and> size' v2 = 3 \<and> k' = 1" by simp
    qed
    from e1 E s3 B
    show "elements v1 = [Some a, Some (value_of x), Some b, Some c] \<and> size' v1 = 4 \<and> k = 1
            \<and> (Erase tr 1 v1 w1 = Returns k' (v2, w2) \<longrightarrow>
                 elements v2 = [Some a, Some b, Some c] \<and> size' v2 = 3 \<and> k' = 1)" by simp
  qed
  have C: "budget w = None \<and> alloc_budget w = None \<longrightarrow>
            (\<exists>k v1 w1 k' v2 w2. Emplace tr 1 (Outside x) v w = Returns k (v1, w1)
               \<and> Erase tr 1 v1 w1 = Returns k' (v2, w2))"
  proof
    assume nf: "budget w = None \<and> alloc_budget w = None"
    then have nf': "budget w = None" "alloc_budget w = None" by simp_all
    have "1 \<le> size' v" using s3 by simp
    from Emplace_total[OF assms(1) this nf', of tr x] obtain k v1 w1 where
      r: "Emplace tr 1 (Outside x) v w = Returns k (v1, w1)" by blast
    note E = Emplace_Returns[OF assms(1) r]
    from E s3 nf have "invariant v1" "1 < size' v1" "budget w1 = None" by simp_all
    from Erase_total[OF this, of tr] obtain k' v2 w2 where "Erase tr 1 v1 w1 = Returns k' (v2, w2)"
      by blast
    with r show "\<exists>k v1 w1 k' v2 w2. Emplace tr 1 (Outside x) v w = Returns k (v1, w1)
        \<and> Erase tr 1 v1 w1 = Returns k' (v2, w2)"
      by blast
  qed
  from A C show ?thesis by simp
qed


text \<open>
  With a reference to the container's own element: the path that allocates new storage
  builds the new element first, so it inserts the value that the element had at the call.
\<close>

lemma insert_own_element_regrow:
  assumes inv: "invariant v" and full: "size' v = Capacity v" and i: "i < size' v"
    and r: "Emplace tr p (OwnElement i) v w = Returns k (v', w')"
  shows "elements v' = take p (elements v) @ [elements v ! i] @ drop p (elements v)"
proof -
  from inv i have "read (buffer' (data' v)) i \<noteq> None" by (simp add: invariant_iff)
  then obtain x where x: "read (buffer' (data' v)) i = Some x" by blast
  from inv i x have el: "elements v ! i = Some x"
    by (simp add: elements_def subscript_def subscript_ok_def invariant_iff)
  from x i have rf: "referent (buffer' (data' v)) (size' v) (OwnElement i) = Some (CopyOf x)"
    by (simp add: referent_OwnElement)
  from full have nr: "\<not> size' v < Capacity v" by simp
  from r have "Emplace tr p (Outside (CopyOf x)) v w = Returns k (v', w')"
    by (simp add: Emplace_regrow_referent[OF nr rf])
  from Emplace_elements[OF inv this] el show ?thesis by simp
qed

section \<open>The claims\<close>

text \<open>
  Claim C1. For a container that satisfies the invariant, an append that returns
  increases \<open>size\<close> by exactly 1, puts the given value into the last slot (index
  \<open>size - 1\<close>) and leaves every earlier element at its index with its value. A sequence
  of appends that returns has added its values in order behind the former elements, and
  when no failure is injected every sequence of appends returns.
\<close>

theorem appends_extend_by_one:
  assumes "invariant v"
  shows "(EmplaceBack tr a v w = Returns k (v1, w1) \<longrightarrow>
            size' v1 = size' v + 1 \<and> subscript v1 (size' v1 - 1) = Some (value_of a)
            \<and> (\<forall>i<size' v. subscript v1 i = subscript v i))
       \<and> (appends tr as v w = Returns cs (v', w') \<longrightarrow>
            size' v' = size' v + length as
            \<and> elements v' = elements v @ map (\<lambda>a. Some (value_of a)) as)
       \<and> (budget w = None \<and> alloc_budget w = None \<longrightarrow>
            (\<exists>cs v' w'. appends tr as v w = Returns cs (v', w')))"
  using EmplaceBack_Returns[OF assms, of tr a w k v1 w1] appends_Returns[OF assms, of tr as w cs v' w']
    appends_total[OF assms, of w tr as]
  by auto

theorem appends_extend_by_one_witness:
  "invariant (vec [7::nat] 1)
   \<and> (\<exists>cs v' w'. appends copyable_type [CopyOf 8, MoveOf 9] (vec [7] 1) quiet = Returns cs (v', w')
        \<and> size' v' = 3 \<and> elements v' = [Some 7, Some 8, Some 9])"
proof -
  have i: "invariant (vec [7::nat] 1)" by (simp add: invariant_vec)
  have q: "budget quiet = None \<and> alloc_budget quiet = None" by (simp add: quiet_def)
  from appends_extend_by_one[OF i, of copyable_type _ quiet _ _ _ "[CopyOf 8, MoveOf 9]"] q
  obtain cs v' w' where r: "appends copyable_type [CopyOf 8, MoveOf 9] (vec [7] 1) quiet = Returns cs (v', w')"
    by blast
  from appends_extend_by_one[OF i, of copyable_type _ quiet _ _ _ "[CopyOf 8, MoveOf 9]" cs v' w'] r
  have "size' v' = 3 \<and> elements v' = [Some 7, Some 8, Some 9]"
    by (simp add: elements_vec) (simp add: vec_def)
  with i r show ?thesis by blast
qed

text \<open>
  Claim C10. \<open>EmplaceBack\<close> returns a reference to the element it has appended: the
  returned reference designates index \<open>size - 1\<close> of the container after the call, and
  that element holds the constructed value, on the path with room and on the
  reallocation path.
\<close>

theorem EmplaceBack_returns_last:
  assumes "invariant v" and "EmplaceBack tr a v w = Returns k (v', w')"
  shows "k = size' v' - 1 \<and> subscript v' k = Some (value_of a)"
  using EmplaceBack_Returns[OF assms] by simp

theorem EmplaceBack_returns_last_witness:
  "invariant (vec [7::nat] 1) \<and> invariant (vec [7::nat] 2)
   \<and> (\<exists>v' w'. EmplaceBack copyable_type (CopyOf 8) (vec [7] 1) quiet = Returns 1 (v', w')
         \<and> size' v' = 2 \<and> subscript v' 1 = Some 8)
   \<and> (\<exists>v' w'. EmplaceBack nothrow_type (MoveOf 8) (vec [7] 2) quiet = Returns 1 (v', w')
         \<and> size' v' = 2 \<and> subscript v' 1 = Some 8)"
proof -
  have i1: "invariant (vec [7::nat] 1)" and i2: "invariant (vec [7::nat] 2)"
    by (simp_all add: invariant_vec)
  have q: "budget quiet = None" "alloc_budget quiet = None" by (simp_all add: quiet_def)
  from EmplaceBack_total[OF i1 q, of copyable_type "CopyOf 8"] obtain k v' w' where
    r1: "EmplaceBack copyable_type (CopyOf 8) (vec [7] 1) quiet = Returns k (v', w')" by blast
  from EmplaceBack_returns_last[OF i1 r1] EmplaceBack_Returns[OF i1 r1]
  have p1: "k = 1 \<and> size' v' = 2 \<and> subscript v' 1 = Some 8" by (simp add: vec_def)
  from EmplaceBack_total[OF i2 q, of nothrow_type "MoveOf 8"] obtain k2 v2 w2 where
    r2: "EmplaceBack nothrow_type (MoveOf 8) (vec [7] 2) quiet = Returns k2 (v2, w2)" by blast
  from EmplaceBack_returns_last[OF i2 r2] EmplaceBack_Returns[OF i2 r2]
  have p2: "k2 = 1 \<and> size' v2 = 2 \<and> subscript v2 1 = Some 8" by (simp add: vec_def)
  from i1 i2 r1 p1 r2 p2 show ?thesis by blast
qed




text \<open>
  Claim C9. A self-assignment changes nothing: the copy assignment \<open>v = v\<close> and the move
  assignment \<open>v = std::move(v)\<close> of the object at an address leave the store, and so the
  size, the capacity and every element of that object, as they were.
\<close>

theorem self_assignment_unchanged:
  "copy_assign a a st w = Returns () (st, w) \<and> move_assign a a st = st"
  by (simp add: copy_assign_def move_assign_def)

theorem self_assignment_unchanged_witness:
  "copy_assign 1 1 two_vectors (failing_after 0) = Returns () (two_vectors, failing_after 0)
   \<and> move_assign 1 1 two_vectors = two_vectors \<and> two_vectors 1 = vec [2, 3] 2"
  using self_assignment_unchanged[of 1 two_vectors "failing_after 0"]
  by (simp add: two_vectors_def)

text \<open>
  Claim C3. When an append or a positional insert finds \<open>size = capacity\<close>, the capacity
  after the call is \<open>max(1, size * 2)\<close> for the size before the call. Five appends to an
  empty container, with no failure injected, return and show the capacities 1, 2, 4, 4, 8.
\<close>

theorem growth_doubles:
  "(size' v = Capacity v \<and> EmplaceBack tr a v w = Returns k (v', w') \<longrightarrow>
      Capacity v' = max 1 (size' v * 2))
   \<and> (size' v = Capacity v \<and> Emplace tr p r v w = Returns k (v', w') \<longrightarrow>
      Capacity v' = max 1 (size' v * 2))
   \<and> (budget w = None \<and> alloc_budget w = None \<longrightarrow>
      (\<exists>v' w'. appends tr [a1, a2, a3, a4, a5] Vector_default w = Returns [1, 2, 4, 4, 8] (v', w')))"
proof (intro conjI impI)
  assume "size' v = Capacity v \<and> EmplaceBack tr a v w = Returns k (v', w')"
  then show "Capacity v' = max 1 (size' v * 2)" using EmplaceBack_grow_capacity by blast
next
  assume "size' v = Capacity v \<and> Emplace tr p r v w = Returns k (v', w')"
  then show "Capacity v' = max 1 (size' v * 2)" using Emplace_grow_capacity by blast
next
  assume nf: "budget w = None \<and> alloc_budget w = None"
  then have b: "budget w = None" "alloc_budget w = None" by simp_all
  from appends_total[OF invariant_default b, of tr "[a1, a2, a3, a4, a5]"] obtain cs v' w' where
    r: "appends tr [a1, a2, a3, a4, a5] Vector_default w = Returns cs (v', w')" by blast
  from appends_five_capacities[OF r] r
  show "\<exists>v' w'. appends tr [a1, a2, a3, a4, a5] Vector_default w = Returns [1, 2, 4, 4, 8] (v', w')"
    by blast
qed

theorem growth_doubles_witness:
  "(\<exists>v' w'. Emplace copyable_type 1 (Outside (CopyOf 9)) (vec [1, 2, 3] 3) quiet = Returns 1 (v', w')
       \<and> Capacity v' = 6)
   \<and> (\<exists>v' w'. appends copyable_type [CopyOf 1, CopyOf 2, CopyOf 3, CopyOf 4, CopyOf 5]
          Vector_default quiet = Returns [1, 2, 4, 4, 8] (v', w'))"
proof -
  have q: "budget quiet = None \<and> alloc_budget quiet = None" by (simp add: quiet_def)
  have "Emplace copyable_type 1 (Outside (CopyOf 9)) (vec [1, 2, 3] 3) quiet
          = Returns 1 (vec [1, 9, 2, 3] 6, quiet\<lparr>copies := 4, dtors := 3\<rparr>)"
    by code_simp
  then obtain v' w' where r: "Emplace copyable_type 1 (Outside (CopyOf 9)) (vec [1, 2, 3] 3) quiet = Returns 1 (v', w')"
    by blast
  have f: "size' (vec [1::nat, 2, 3] 3) = Capacity (vec [1::nat, 2, 3] 3)" by (simp add: vec_def Capacity_def)
  from growth_doubles[where v = "vec [1, 2, 3] 3" and tr = copyable_type and w = quiet and v' = v'
      and w' = w' and p = 1 and r = "Outside (CopyOf 9)" and k = 1] f r
  have "Capacity v' = 6" by (simp add: vec_def)
  moreover from growth_doubles[where tr = copyable_type and w = quiet and ?a1.0 = "CopyOf 1"
      and ?a2.0 = "CopyOf 2" and ?a3.0 = "CopyOf 3" and ?a4.0 = "CopyOf 4" and ?a5.0 = "CopyOf 5"] q
  have "\<exists>v' w'. appends copyable_type [CopyOf 1, CopyOf 2, CopyOf 3, CopyOf 4, CopyOf 5]
          Vector_default quiet = Returns [1, 2, 4, 4, 8] (v', w')" by blast
  ultimately show ?thesis using r by blast
qed

text \<open>
  Claim C5, as the code has it. Move construction leaves the source empty: the new
  object has the former contents of the source, and the source is the default-constructed
  container, of size 0. Move assignment between two different objects exchanges them: the
  source then holds the former storage and size of the target, so its size is 0 only when
  the target was empty. In both cases the source satisfies the invariant (given that the
  operands did), its destructor is defined, and with no failure injected a further append
  to it returns and adds its element behind the elements the source then holds.
\<close>

theorem moved_from_source_state:
  fixes v :: "'a Vector" and st :: "'a store"
  shows "fst (Vector_move v) = v \<and> snd (Vector_move v) = Vector_default
     \<and> size' (snd (Vector_move v)) = 0 \<and> invariant (snd (Vector_move v))
     \<and> (this \<noteq> rhs \<longrightarrow>
          move_assign this rhs st this = st rhs \<and> move_assign this rhs st rhs = st this)
     \<and> (invariant (st this) \<and> invariant (st rhs) \<longrightarrow>
          invariant (move_assign this rhs st rhs)
          \<and> Vector_destructor (move_assign this rhs st rhs) w \<noteq> None)
     \<and> (invariant (st this) \<and> invariant (st rhs) \<and> budget w = None \<and> alloc_budget w = None \<longrightarrow>
          (\<exists>k v' w'. EmplaceBack tr a (move_assign this rhs st rhs) w = Returns k (v', w')
             \<and> elements v' = elements (move_assign this rhs st rhs) @ [Some (value_of a)]))
     \<and> Vector_destructor (snd (Vector_move v)) w \<noteq> None
     \<and> (budget w = None \<and> alloc_budget w = None \<longrightarrow>
          (\<exists>k v' w'. EmplaceBack tr a (snd (Vector_move v)) w = Returns k (v', w')
             \<and> elements v' = [Some (value_of a)]))"
proof -
  have c1: "fst (Vector_move v) = v" "snd (Vector_move v) = Vector_default"
    by (simp_all add: Vector_move_eq)
  have c2: "size' (snd (Vector_move v)) = 0" "invariant (snd (Vector_move v))"
    by (simp_all add: Vector_move_eq invariant_default) (simp add: Vector_default_def)
  have c3: "this \<noteq> rhs \<longrightarrow>
          move_assign this rhs st this = st rhs \<and> move_assign this rhs st rhs = st this"
    using move_assign_distinct[of this rhs st] by simp
  have src: "invariant (st this) \<and> invariant (st rhs) \<longrightarrow> invariant (move_assign this rhs st rhs)"
    using move_assign_distinct[of this rhs st] by (cases "this = rhs") (simp_all add: move_assign_def)
  then have c4: "invariant (st this) \<and> invariant (st rhs) \<longrightarrow>
          invariant (move_assign this rhs st rhs)
          \<and> Vector_destructor (move_assign this rhs st rhs) w \<noteq> None"
    using Vector_destructor_total[of "move_assign this rhs st rhs" w] by blast
  have c5: "invariant (st this) \<and> invariant (st rhs) \<and> budget w = None \<and> alloc_budget w = None \<longrightarrow>
          (\<exists>k v' w'. EmplaceBack tr a (move_assign this rhs st rhs) w = Returns k (v', w')
             \<and> elements v' = elements (move_assign this rhs st rhs) @ [Some (value_of a)])"
    using src EmplaceBack_reusable[of "move_assign this rhs st rhs" w tr a] by blast
  have c6: "Vector_destructor (snd (Vector_move v)) w \<noteq> None"
    using Vector_destructor_total[OF invariant_default, of w] by (simp add: Vector_move_eq)
  have c7: "budget w = None \<and> alloc_budget w = None \<longrightarrow>
          (\<exists>k v' w'. EmplaceBack tr a (snd (Vector_move v)) w = Returns k (v', w')
             \<and> elements v' = [Some (value_of a)])"
    using EmplaceBack_reusable[OF invariant_default, of w tr a]
    by (simp add: elements_default Vector_move_eq)
  from c1 c2 c3 c4 c5 c6 c7 show ?thesis by (intro conjI)
qed

theorem moved_from_source_state_witness:
  "(0::nat) \<noteq> 1 \<and> invariant (two_vectors 0) \<and> invariant (two_vectors 1)
   \<and> budget quiet = None \<and> alloc_budget quiet = None
   \<and> move_assign 0 1 two_vectors 0 = vec [2, 3] 2 \<and> move_assign 0 1 two_vectors 1 = vec [1] 1
   \<and> (\<exists>k v' w'. EmplaceBack copyable_type (CopyOf 4) (move_assign 0 1 two_vectors 1) quiet
          = Returns k (v', w') \<and> elements v' = [Some 1, Some 4])"
proof -
  have i: "invariant (two_vectors 0) \<and> invariant (two_vectors 1)"
    by (simp add: two_vectors_def invariant_vec)
  have q: "budget quiet = None \<and> alloc_budget quiet = None" by (simp add: quiet_def)
  note T = moved_from_source_state[where this = 0 and rhs = 1 and st = two_vectors and w = quiet
      and tr = copyable_type and a = "CopyOf 4"]
  from T have m: "move_assign 0 1 two_vectors 0 = vec [2, 3] 2 \<and> move_assign 0 1 two_vectors 1 = vec [1] 1"
    by (simp add: two_vectors_def)
  from T i q obtain k v' w' where
    "EmplaceBack copyable_type (CopyOf 4) (move_assign 0 1 two_vectors 1) quiet = Returns k (v', w')
     \<and> elements v' = elements (move_assign 0 1 two_vectors 1) @ [Some (value_of (CopyOf (4::nat)))]"
    by blast
  with m have "EmplaceBack copyable_type (CopyOf 4) (move_assign 0 1 two_vectors 1) quiet = Returns k (v', w')
     \<and> elements v' = [Some 1, Some 4]" by (simp add: elements_vec)
  with i q m show ?thesis by auto
qed

text \<open>
  Claim C5 as stated fails for move assignment into a container that is not empty: with
  \<open>[1]\<close> at address 0 and \<open>[2, 3]\<close> at address 1, after the object at 0 is
  move-assigned from the object at 1 the source at address 1 holds \<open>[1]\<close> and its size
  is 1, not 0.
\<close>

theorem move_assignment_source_size_counterexample:
  "two_vectors 0 = vec [1] 1 \<and> two_vectors 1 = vec [2, 3] 2
   \<and> move_assign 0 1 two_vectors 0 = vec [2, 3] 2
   \<and> move_assign 0 1 two_vectors 1 = vec [1] 1
   \<and> size' (move_assign 0 1 two_vectors 1) = 1"
  by (simp add: two_vectors_def move_assign_def Swap_def RawMemory_Swap_def vec_def)

text \<open>
  Claim C2, as the code has it. Let the element type be copy-constructible or have a
  move constructor that cannot throw. Then an append (with or without growth), a
  \<open>Reserve\<close>, a copy assignment on its regrow path (the right-hand side is larger than the
  capacity) and a positional insert on its regrow path (no free slot), when they throw,
  whether from the allocation or from the construction of an element, leave the
  container exactly as it was before the call: the same size, the same capacity, and
  every slot with its former value.
\<close>

theorem strong_guarantee_on_regrow:
  assumes "is_nothrow_move_constructible tr \<or> is_copy_constructible tr"
  shows "(EmplaceBack tr a v w = Throws e (v', w') \<longrightarrow> v' = v)
     \<and> (Reserve tr n v w = Throws e (v', w') \<longrightarrow> v' = v)
     \<and> (capacity' (data' v) < size' rhs \<and> copy_assign_body v rhs w = Throws e (v', w') \<longrightarrow> v' = v)
     \<and> (\<not> size' v < Capacity v \<and> Emplace tr p r v w = Throws e (v', w') \<longrightarrow> v' = v)"
  using EmplaceBack_Throws[OF _ assms, of a v w e v' w'] Reserve_Throws[OF _ assms, of n v w e v' w']
    copy_assign_body_regrow_Throws[of v rhs w e v' w'] Emplace_regrow_Throws[OF _ _ assms, of p r v w e v' w']
  by blast

theorem strong_guarantee_on_regrow_witness:
  "(is_nothrow_move_constructible copyable_type \<or> is_copy_constructible copyable_type)
   \<and> (\<exists>e w'. EmplaceBack copyable_type (CopyOf 3) (vec [1, 2] 2) (failing_after 2)
          = Throws e (vec [1, 2] 2, w'))
   \<and> (\<exists>e w'. Reserve copyable_type 4 (vec [1, 2] 2) (failing_after 1)
          = Throws e (vec [1, 2] 2, w'))
   \<and> (\<exists>e w'. copy_assign_body (vec [1, 2] 2) (vec [7, 8, 9] 3) (failing_after 1)
          = Throws e (vec [1, 2::nat] 2, w'))
   \<and> (\<exists>e w'. Emplace copyable_type 1 (Outside (CopyOf 3)) (vec [1, 2] 2) (failing_after 2)
          = Throws e (vec [1, 2] 2, w'))"
proof -
  have ty: "is_nothrow_move_constructible copyable_type \<or> is_copy_constructible copyable_type"
    by (simp add: copyable_type_def)
  note T = strong_guarantee_on_regrow[OF ty]
  have "throws (EmplaceBack copyable_type (CopyOf 3) (vec [1, 2] 2) (failing_after 2))"
    by code_simp
  then obtain e1 v1 w1 where
    e1: "EmplaceBack copyable_type (CopyOf 3) (vec [1, 2] 2) (failing_after 2) = Throws e1 (v1, w1)"
    by (auto simp: throws_def split: outcome.splits)
  have "throws (Reserve copyable_type 4 (vec [1, 2] 2) (failing_after 1))"
    by code_simp
  then obtain e2 v2 w2 where
    e2: "Reserve copyable_type 4 (vec [1, 2] 2) (failing_after 1) = Throws e2 (v2, w2)"
    by (auto simp: throws_def split: outcome.splits)
  have "throws (copy_assign_body (vec [1, 2] 2) (vec [7, 8, 9::nat] 3) (failing_after 1))"
    by code_simp
  then obtain e3 v3 w3 where
    e3: "copy_assign_body (vec [1, 2] 2) (vec [7, 8, 9::nat] 3) (failing_after 1) = Throws e3 (v3, w3)"
    by (auto simp: throws_def split: outcome.splits)
  have "throws (Emplace copyable_type 1 (Outside (CopyOf 3)) (vec [1, 2] 2) (failing_after 2))"
    by code_simp
  then obtain e4 v4 w4 where
    e4: "Emplace copyable_type 1 (Outside (CopyOf 3)) (vec [1, 2] 2) (failing_after 2) = Throws e4 (v4, w4)"
    by (auto simp: throws_def split: outcome.splits)
  have c: "capacity' (data' (vec [1::nat, 2] 2)) < size' (vec [7::nat, 8, 9] 3)"
    "\<not> size' (vec [1::nat, 2] 2) < Capacity (vec [1::nat, 2] 2)"
    by (simp_all add: vec_def Capacity_def)
  from T[where a = "CopyOf 3" and v = "vec [1, 2] 2" and w = "failing_after 2" and e = e1
      and v' = v1 and w' = w1] e1
  have r1: "v1 = vec [1, 2] 2" by simp
  from T[where n = 4 and v = "vec [1, 2] 2" and w = "failing_after 1" and e = e2
      and v' = v2 and w' = w2] e2
  have r2: "v2 = vec [1, 2] 2" by simp
  from T[where rhs = "vec [7, 8, 9] 3" and v = "vec [1, 2] 2" and w = "failing_after 1" and e = e3
      and v' = v3 and w' = w3] e3 c
  have r3: "v3 = vec [1, 2] 2" by simp
  from T[where r = "Outside (CopyOf 3)" and p = 1 and v = "vec [1, 2] 2" and w = "failing_after 2" and e = e4
      and v' = v4 and w' = w4] e4 c
  have r4: "v4 = vec [1, 2] 2" by simp
  from ty e1 e2 e3 e4 r1 r2 r3 r4 show ?thesis by blast
qed

text \<open>
  Claim C2 as stated fails on three paths. The in-place path of the copy assignment
  assigns element by element: when the second assignment throws, the first element has
  already been overwritten. The in-place path of the positional insert has moved the last
  element into slot \<open>size\<close> before the new element is constructed: when that construction
  throws, the former last element is left moved-from and the size is unchanged. A type
  that is not copy-constructible and whose move constructor throws is relocated by moves:
  when the second move of \<open>Reserve\<close> throws, the first element is left moved-from.
\<close>

theorem strong_guarantee_counterexample:
  "copy_assign_body (vec [1, 2, 3] 3) (vec [7, 8] 2) (failing_after 1)
     = Throws ElementOperationFailure (vec [7, 2, 3::nat] 3, quiet)
   \<and> vec [7, 2, 3] 3 \<noteq> vec [1, 2, 3::nat] 3
   \<and> Emplace nothrow_type 0 (Outside (CopyOf 9)) (vec [1] 2) (failing_after 0)
     = Throws ElementOperationFailure
         (\<lparr>data' = \<lparr>buffer' = [Live 0, Live 1], capacity' = 2\<rparr>, size' = 1\<rparr>, quiet\<lparr>moves := 1\<rparr>)
   \<and> \<lparr>data' = \<lparr>buffer' = [Live 0, Live 1], capacity' = 2\<rparr>, size' = 1\<rparr> \<noteq> vec [1::nat] 2
   \<and> Reserve move_only_type 4 (vec [1, 2] 2) (failing_after 1)
     = Throws ElementOperationFailure (vec [0, 2] 2, quiet\<lparr>moves := 1, dtors := 1\<rparr>)
   \<and> vec [0, 2] 2 \<noteq> vec [1, 2::nat] 2"
  by code_simp

text \<open>
  Claim C6, at the input where the code breaks it. The container \<open>[1, 2, 3]\<close> with
  capacity 5 has room, so \<open>v.Insert(v.begin() + 1, v[2])\<close> takes the in-place path.
  That path first moves the last element into slot 3 and shifts the element 2 into slot 2,
  and only then builds the new element from the reference, which by then refers to the
  shifted element: the result is \<open>[1, 2, 2, 3]\<close> and not \<open>[1, 3, 2, 3]\<close>. The same
  call with the value 3 outside the container yields \<open>[1, 3, 2, 3]\<close>, and so does the
  same call on the container of capacity 3, on the path that allocates new storage.
\<close>

theorem in_place_insert_reads_shifted_element:
  "invariant (vec [1::nat, 2, 3] 5) \<and> elements (vec [1::nat, 2, 3] 5) = [Some 1, Some 2, Some 3]
   \<and> subscript (vec [1::nat, 2, 3] 5) 2 = Some 3
   \<and> Insert_own_element trivial_type 1 2 (vec [1, 2, 3] 5) quiet
       = Returns 1 (vec [1, 2, 2, 3] 5, quiet\<lparr>copies := 1, moves := 1, dtors := 1\<rparr>)
   \<and> elements (vec [1::nat, 2, 2, 3] 5) = [Some 1, Some 2, Some 2, Some 3]
   \<and> Insert_copy trivial_type 1 3 (vec [1, 2, 3] 5) quiet
       = Returns 1 (vec [1, 3, 2, 3] 5, quiet\<lparr>copies := 1, moves := 1, dtors := 1\<rparr>)
   \<and> Insert_own_element trivial_type 1 2 (vec [1, 2, 3] 3) quiet
       = Returns 1 (vec [1, 3, 2, 3] 6, quiet\<lparr>copies := 1, moves := 3, dtors := 3\<rparr>)"
  by code_simp

text \<open>
  Claim C4. \<open>moves_on_relocation\<close> is the condition of the source: the move constructor
  is \<open>noexcept\<close> or the type is not copy-constructible. For a container that satisfies the
  invariant, a relocation that completes (in \<open>Reserve\<close> beyond the capacity, in an append
  at \<open>size = capacity\<close>, in a positional insert at \<open>size = capacity\<close>) has, under that
  condition, move-constructed exactly \<open>size\<close> elements and copy-constructed none, and
  otherwise copy-constructed exactly \<open>size\<close> elements and move-constructed none (beside
  the one construction of the new element from its arguments); the new slots hold the
  former values in their order, and exactly the \<open>size\<close> old elements were destroyed.
  When the copying strategy throws, the container is as it was: every original is still
  in place with its value. With no failure injected each of the three operations
  completes its relocation and returns (\<open>Reserve\<close> for a request whose byte count does
  not wrap).
\<close>

theorem relocation_strategy:
  assumes "invariant v"
  shows
   "(Capacity v < n \<and> Reserve tr n v w = Returns u (v', w') \<longrightarrow>
       (if moves_on_relocation tr
        then moves w' = moves w + size' v \<and> copies w' = copies w
        else copies w' = copies w + size' v \<and> moves w' = moves w)
       \<and> dtors w' = dtors w + size' v \<and> elements v' = elements v)
    \<and> (size' v = Capacity v \<and> EmplaceBack tr a v w = Returns k (v', w') \<longrightarrow>
       (if moves_on_relocation tr
        then moves w' = moves w + moves_of a + size' v \<and> copies w' = copies w + copies_of a
        else copies w' = copies w + copies_of a + size' v \<and> moves w' = moves w + moves_of a)
       \<and> dtors w' = dtors w + size' v \<and> (\<forall>i<size' v. subscript v' i = subscript v i))
    \<and> (size' v = Capacity v \<and> p < size' v \<and> referent (buffer' (data' v)) (size' v) r = Some a
         \<and> Emplace tr p r v w = Returns k (v', w') \<longrightarrow>
       (if moves_on_relocation tr
        then moves w' = moves w + moves_of a + size' v \<and> copies w' = copies w + copies_of a
        else copies w' = copies w + copies_of a + size' v \<and> moves w' = moves w + moves_of a)
       \<and> dtors w' = dtors w + size' v
       \<and> (\<forall>i<p. subscript v' i = subscript v i)
       \<and> (\<forall>i. p \<le> i \<and> i < size' v \<longrightarrow> subscript v' (i + 1) = subscript v i))
    \<and> (\<not> moves_on_relocation tr \<longrightarrow>
         (Reserve tr n v w = Throws e (v', w') \<longrightarrow> v' = v)
         \<and> (EmplaceBack tr a v w = Throws e (v', w') \<longrightarrow> v' = v)
         \<and> (size' v = Capacity v \<and> Emplace tr p r v w = Throws e (v', w') \<longrightarrow> v' = v))
    \<and> (budget w = None \<and> alloc_budget w = None \<longrightarrow>
         (0 < sizeof tr \<and> n * sizeof tr \<le> SIZE_MAX \<longrightarrow>
            (\<exists>v' w'. Reserve tr n v w = Returns () (v', w')))
         \<and> (\<exists>k v' w'. EmplaceBack tr a v w = Returns k (v', w'))
         \<and> (size' v = Capacity v \<and> p \<le> size' v \<and> referent (buffer' (data' v)) (size' v) r = Some a \<longrightarrow>
            (\<exists>k v' w'. Emplace tr p r v w = Returns k (v', w'))))"
proof -
  have A: "Capacity v < n \<and> Reserve tr n v w = Returns u (v', w') \<longrightarrow>
       (if moves_on_relocation tr
        then moves w' = moves w + size' v \<and> copies w' = copies w
        else copies w' = copies w + size' v \<and> moves w' = moves w)
       \<and> dtors w' = dtors w + size' v \<and> elements v' = elements v"
  proof
    assume h: "Capacity v < n \<and> Reserve tr n v w = Returns u (v', w')"
    then have gt: "Capacity v < n" and r: "Reserve tr n v w = Returns u (v', w')" by simp_all
    from Reserve_Returns_elements[OF assms gt r] Reserve_counters[OF r gt]
    show "(if moves_on_relocation tr
        then moves w' = moves w + size' v \<and> copies w' = copies w
        else copies w' = copies w + size' v \<and> moves w' = moves w)
       \<and> dtors w' = dtors w + size' v \<and> elements v' = elements v" by simp
  qed
  have B: "size' v = Capacity v \<and> EmplaceBack tr a v w = Returns k (v', w') \<longrightarrow>
       (if moves_on_relocation tr
        then moves w' = moves w + moves_of a + size' v \<and> copies w' = copies w + copies_of a
        else copies w' = copies w + copies_of a + size' v \<and> moves w' = moves w + moves_of a)
       \<and> dtors w' = dtors w + size' v \<and> (\<forall>i<size' v. subscript v' i = subscript v i)"
  proof
    assume h: "size' v = Capacity v \<and> EmplaceBack tr a v w = Returns k (v', w')"
    then have full: "size' v = Capacity v" and r: "EmplaceBack tr a v w = Returns k (v', w')" by simp_all
    from EmplaceBack_Returns[OF assms r] EmplaceBack_counters[OF r] full
    show "(if moves_on_relocation tr
        then moves w' = moves w + moves_of a + size' v \<and> copies w' = copies w + copies_of a
        else copies w' = copies w + copies_of a + size' v \<and> moves w' = moves w + moves_of a)
       \<and> dtors w' = dtors w + size' v \<and> (\<forall>i<size' v. subscript v' i = subscript v i)"
      by (simp add: copies_of_def moves_of_def)
  qed
  have C: "size' v = Capacity v \<and> p < size' v \<and> referent (buffer' (data' v)) (size' v) r = Some a
         \<and> Emplace tr p r v w = Returns k (v', w') \<longrightarrow>
       (if moves_on_relocation tr
        then moves w' = moves w + moves_of a + size' v \<and> copies w' = copies w + copies_of a
        else copies w' = copies w + copies_of a + size' v \<and> moves w' = moves w + moves_of a)
       \<and> dtors w' = dtors w + size' v
       \<and> (\<forall>i<p. subscript v' i = subscript v i)
       \<and> (\<forall>i. p \<le> i \<and> i < size' v \<longrightarrow> subscript v' (i + 1) = subscript v i)"
  proof
    assume h: "size' v = Capacity v \<and> p < size' v \<and> referent (buffer' (data' v)) (size' v) r = Some a
         \<and> Emplace tr p r v w = Returns k (v', w')"
    then have full: "size' v = Capacity v" and lt: "p < size' v"
      and rf: "referent (buffer' (data' v)) (size' v) r = Some a"
      and r: "Emplace tr p r v w = Returns k (v', w')" by blast+
    from r full lt have "EmplaceNoCapacity tr p r v w = Returns k (v', w')" by (simp add: Emplace_def)
    then have e: "EmplaceNoCapacity tr p (Outside a) v w = Returns k (v', w')"
      by (simp add: EmplaceNoCapacity_referent[OF rf])
    from EmplaceNoCapacity_Returns[OF assms full e] EmplaceNoCapacity_counters[OF e]
    show "(if moves_on_relocation tr
        then moves w' = moves w + moves_of a + size' v \<and> copies w' = copies w + copies_of a
        else copies w' = copies w + copies_of a + size' v \<and> moves w' = moves w + moves_of a)
       \<and> dtors w' = dtors w + size' v
       \<and> (\<forall>i<p. subscript v' i = subscript v i)
       \<and> (\<forall>i. p \<le> i \<and> i < size' v \<longrightarrow> subscript v' (i + 1) = subscript v i)"
      by (simp add: copies_of_def moves_of_def)
  qed
  have D: "\<not> moves_on_relocation tr \<longrightarrow>
         (Reserve tr n v w = Throws e (v', w') \<longrightarrow> v' = v)
         \<and> (EmplaceBack tr a v w = Throws e (v', w') \<longrightarrow> v' = v)
         \<and> (size' v = Capacity v \<and> Emplace tr p r v w = Throws e (v', w') \<longrightarrow> v' = v)"
  proof
    assume "\<not> moves_on_relocation tr"
    then have ty: "is_nothrow_move_constructible tr \<or> is_copy_constructible tr"
      by (simp add: moves_on_relocation_def)
    from Reserve_Throws[OF _ ty, of n v w e v' w'] EmplaceBack_Throws[OF _ ty, of a v w e v' w']
      Emplace_regrow_Throws[OF _ _ ty, of p r v w e v' w']
    show "(Reserve tr n v w = Throws e (v', w') \<longrightarrow> v' = v)
         \<and> (EmplaceBack tr a v w = Throws e (v', w') \<longrightarrow> v' = v)
         \<and> (size' v = Capacity v \<and> Emplace tr p r v w = Throws e (v', w') \<longrightarrow> v' = v)" by simp
  qed
  have E: "budget w = None \<and> alloc_budget w = None \<longrightarrow>
         (0 < sizeof tr \<and> n * sizeof tr \<le> SIZE_MAX \<longrightarrow>
            (\<exists>v' w'. Reserve tr n v w = Returns () (v', w')))
         \<and> (\<exists>k v' w'. EmplaceBack tr a v w = Returns k (v', w'))
         \<and> (size' v = Capacity v \<and> p \<le> size' v \<and> referent (buffer' (data' v)) (size' v) r = Some a \<longrightarrow>
            (\<exists>k v' w'. Emplace tr p r v w = Returns k (v', w')))"
  proof
    assume "budget w = None \<and> alloc_budget w = None"
    then have nf: "budget w = None" "alloc_budget w = None" by simp_all
    have 1: "0 < sizeof tr \<and> n * sizeof tr \<le> SIZE_MAX \<longrightarrow>
            (\<exists>v' w'. Reserve tr n v w = Returns () (v', w'))"
      using Reserve_total[OF assms nf, of tr n] by blast
    have 2: "\<exists>k v' w'. EmplaceBack tr a v w = Returns k (v', w')"
      using EmplaceBack_total[OF assms nf] .
    have 3: "size' v = Capacity v \<and> p \<le> size' v \<and> referent (buffer' (data' v)) (size' v) r = Some a \<longrightarrow>
            (\<exists>k v' w'. Emplace tr p r v w = Returns k (v', w'))"
    proof
      assume h: "size' v = Capacity v \<and> p \<le> size' v \<and> referent (buffer' (data' v)) (size' v) r = Some a"
      then have nr: "\<not> size' v < Capacity v" and le: "p \<le> size' v"
        and rf: "referent (buffer' (data' v)) (size' v) r = Some a" by (simp, blast, blast)
      from Emplace_total[OF assms le nf, of tr a]
      show "\<exists>k v' w'. Emplace tr p r v w = Returns k (v', w')"
        by (simp add: Emplace_regrow_referent[OF nr rf])
    qed
    from 1 2 3 show "(0 < sizeof tr \<and> n * sizeof tr \<le> SIZE_MAX \<longrightarrow>
            (\<exists>v' w'. Reserve tr n v w = Returns () (v', w')))
         \<and> (\<exists>k v' w'. EmplaceBack tr a v w = Returns k (v', w'))
         \<and> (size' v = Capacity v \<and> p \<le> size' v \<and> referent (buffer' (data' v)) (size' v) r = Some a \<longrightarrow>
            (\<exists>k v' w'. Emplace tr p r v w = Returns k (v', w')))" by (intro conjI)
  qed
  from A B C D E show ?thesis by (intro conjI)
qed

theorem relocation_strategy_witness:
  "invariant (vec [1::nat, 2] 2) \<and> moves_on_relocation nothrow_type \<and> \<not> moves_on_relocation copyable_type
   \<and> (\<exists>v' w'. Reserve nothrow_type 4 (vec [1, 2] 2) quiet = Returns () (v', w')
         \<and> moves w' = 2 \<and> copies w' = 0 \<and> dtors w' = 2 \<and> elements v' = [Some 1, Some 2])
   \<and> (\<exists>v' w'. Reserve copyable_type 4 (vec [1, 2] 2) quiet = Returns () (v', w')
         \<and> moves w' = 0 \<and> copies w' = 2 \<and> dtors w' = 2 \<and> elements v' = [Some 1, Some 2])
   \<and> (\<exists>k v' w'. EmplaceBack nothrow_type (InPlace 9) (vec [1, 2] 2) quiet = Returns k (v', w')
         \<and> moves w' = 2 \<and> copies w' = 0 \<and> dtors w' = 2
         \<and> subscript v' 0 = Some 1 \<and> subscript v' 1 = Some 2)
   \<and> (\<exists>k v' w'. EmplaceBack copyable_type (InPlace 9) (vec [1, 2] 2) quiet = Returns k (v', w')
         \<and> moves w' = 0 \<and> copies w' = 2 \<and> dtors w' = 2
         \<and> subscript v' 0 = Some 1 \<and> subscript v' 1 = Some 2)
   \<and> (\<exists>k v' w'. Emplace nothrow_type 1 (Outside (InPlace 9)) (vec [1, 2] 2) quiet = Returns k (v', w')
         \<and> moves w' = 2 \<and> copies w' = 0 \<and> dtors w' = 2
         \<and> subscript v' 0 = Some 1 \<and> subscript v' 2 = Some 2)
   \<and> (\<exists>k v' w'. Emplace copyable_type 1 (OwnElement 0) (vec [1, 2] 2) quiet = Returns k (v', w')
         \<and> moves w' = 0 \<and> copies w' = 3 \<and> dtors w' = 2
         \<and> subscript v' 0 = Some 1 \<and> subscript v' 2 = Some 2)
   \<and> (\<exists>e w'. Reserve copyable_type 4 (vec [1, 2] 2) (failing_after 1) = Throws e (vec [1, 2] 2, w'))
   \<and> (\<exists>e w'. EmplaceBack copyable_type (InPlace 9) (vec [1, 2] 2) (failing_after 2)
         = Throws e (vec [1, 2] 2, w'))
   \<and> (\<exists>e w'. Emplace copyable_type 1 (Outside (InPlace 9)) (vec [1, 2] 2) (failing_after 2)
         = Throws e (vec [1, 2] 2, w'))"
proof -
  define v where "v = vec [1::nat, 2] 2"
  have i: "invariant v" by (simp add: v_def invariant_vec)
  have m: "moves_on_relocation nothrow_type" "\<not> moves_on_relocation copyable_type"
    by (simp_all add: moves_on_relocation_def nothrow_type_def copyable_type_def)
  have q: "budget quiet = None \<and> alloc_budget quiet = None" by (simp add: quiet_def)
  have q0: "moves quiet = 0" "copies quiet = 0" "dtors quiet = 0" by (simp_all add: quiet_def)
  have s: "0 < sizeof nothrow_type \<and> 4 * sizeof nothrow_type \<le> SIZE_MAX"
    "0 < sizeof copyable_type \<and> 4 * sizeof copyable_type \<le> SIZE_MAX"
    by (simp_all add: nothrow_type_def copyable_type_def SIZE_MAX_def)
  have c: "Capacity v < 4" and sz: "size' v = 2" and full: "size' v = Capacity v"
    by (simp_all add: v_def Capacity_def vec_def)
  have sub: "subscript v 0 = Some 1" "subscript v 1 = Some 2"
    by (simp_all add: v_def subscript_vec)
  have rf: "referent (buffer' (data' v)) (size' v) (Outside (InPlace 9)) = Some (InPlace 9)"
    "referent (buffer' (data' v)) (size' v) (OwnElement 0) = Some (CopyOf 1)"
    by (simp_all add: referent_OwnElement v_def vec_def read_def)
  have ca: "copies_of (InPlace (9::nat)) = 0" "moves_of (InPlace (9::nat)) = 0"
    "copies_of (CopyOf (1::nat)) = 1" "moves_of (CopyOf (1::nat)) = 0"
    by (simp_all add: copies_of_def moves_of_def)
  note T = relocation_strategy[OF i]
  have c1: "\<exists>v' w'. Reserve nothrow_type 4 v quiet = Returns () (v', w')
         \<and> moves w' = 2 \<and> copies w' = 0 \<and> dtors w' = 2 \<and> elements v' = [Some 1, Some 2]"
  proof -
    from T[where tr = nothrow_type and n = 4 and w = quiet, THEN conjunct2, THEN conjunct2, THEN conjunct2, THEN conjunct2] q s(1) obtain v1 w1 where
      r: "Reserve nothrow_type 4 v quiet = Returns () (v1, w1)" by blast
    from T[where tr = nothrow_type and n = 4 and w = quiet and u = "()" and v' = v1 and w' = w1, THEN conjunct1] r c
    have "(if moves_on_relocation nothrow_type
        then moves w1 = moves quiet + size' v \<and> copies w1 = copies quiet
        else copies w1 = copies quiet + size' v \<and> moves w1 = moves quiet)
       \<and> dtors w1 = dtors quiet + size' v \<and> elements v1 = elements v" by blast
    with m q0 sz have "moves w1 = 2 \<and> copies w1 = 0 \<and> dtors w1 = 2 \<and> elements v1 = [Some 1, Some 2]"
      by (simp add: v_def elements_vec)
    with r show ?thesis by blast
  qed
  have c2: "\<exists>v' w'. Reserve copyable_type 4 v quiet = Returns () (v', w')
         \<and> moves w' = 0 \<and> copies w' = 2 \<and> dtors w' = 2 \<and> elements v' = [Some 1, Some 2]"
  proof -
    from T[where tr = copyable_type and n = 4 and w = quiet, THEN conjunct2, THEN conjunct2, THEN conjunct2, THEN conjunct2] q s(2) obtain v1 w1 where
      r: "Reserve copyable_type 4 v quiet = Returns () (v1, w1)" by blast
    from T[where tr = copyable_type and n = 4 and w = quiet and u = "()" and v' = v1 and w' = w1, THEN conjunct1] r c
    have "(if moves_on_relocation copyable_type
        then moves w1 = moves quiet + size' v \<and> copies w1 = copies quiet
        else copies w1 = copies quiet + size' v \<and> moves w1 = moves quiet)
       \<and> dtors w1 = dtors quiet + size' v \<and> elements v1 = elements v" by blast
    with m q0 sz have "moves w1 = 0 \<and> copies w1 = 2 \<and> dtors w1 = 2 \<and> elements v1 = [Some 1, Some 2]"
      by (simp add: v_def elements_vec)
    with r show ?thesis by blast
  qed
  have c3: "\<exists>k v' w'. EmplaceBack nothrow_type (InPlace 9) v quiet = Returns k (v', w')
         \<and> moves w' = 2 \<and> copies w' = 0 \<and> dtors w' = 2
         \<and> subscript v' 0 = Some 1 \<and> subscript v' 1 = Some 2"
  proof -
    from T[where tr = nothrow_type and a = "InPlace 9" and w = quiet, THEN conjunct2, THEN conjunct2, THEN conjunct2, THEN conjunct2] q obtain k1 v1 w1 where
      r: "EmplaceBack nothrow_type (InPlace 9) v quiet = Returns k1 (v1, w1)" by blast
    from T[where tr = nothrow_type and a = "InPlace 9" and w = quiet and k = k1 and v' = v1 and w' = w1, THEN conjunct2, THEN conjunct1]
      r full
    have h: "(if moves_on_relocation nothrow_type
        then moves w1 = moves quiet + moves_of (InPlace (9::nat)) + size' v
             \<and> copies w1 = copies quiet + copies_of (InPlace (9::nat))
        else copies w1 = copies quiet + copies_of (InPlace (9::nat)) + size' v
             \<and> moves w1 = moves quiet + moves_of (InPlace (9::nat)))
       \<and> dtors w1 = dtors quiet + size' v \<and> (\<forall>i<size' v. subscript v1 i = subscript v i)" by blast
    from h have a: "\<forall>i<size' v. subscript v1 i = subscript v i" by blast
    from a[rule_format, of 0] sz sub have e0: "subscript v1 0 = Some 1" by simp
    from a[rule_format, of 1] sz sub have e1: "subscript v1 1 = Some 2" by simp
    from h m q0 sz ca have "moves w1 = 2 \<and> copies w1 = 0 \<and> dtors w1 = 2" by simp
    with e0 e1 have "moves w1 = 2 \<and> copies w1 = 0 \<and> dtors w1 = 2
         \<and> subscript v1 0 = Some 1 \<and> subscript v1 1 = Some 2" by simp
    with r show ?thesis by blast
  qed
  have c4: "\<exists>k v' w'. EmplaceBack copyable_type (InPlace 9) v quiet = Returns k (v', w')
         \<and> moves w' = 0 \<and> copies w' = 2 \<and> dtors w' = 2
         \<and> subscript v' 0 = Some 1 \<and> subscript v' 1 = Some 2"
  proof -
    from T[where tr = copyable_type and a = "InPlace 9" and w = quiet, THEN conjunct2, THEN conjunct2, THEN conjunct2, THEN conjunct2] q obtain k1 v1 w1 where
      r: "EmplaceBack copyable_type (InPlace 9) v quiet = Returns k1 (v1, w1)" by blast
    from T[where tr = copyable_type and a = "InPlace 9" and w = quiet and k = k1 and v' = v1 and w' = w1, THEN conjunct2, THEN conjunct1]
      r full
    have h: "(if moves_on_relocation copyable_type
        then moves w1 = moves quiet + moves_of (InPlace (9::nat)) + size' v
             \<and> copies w1 = copies quiet + copies_of (InPlace (9::nat))
        else copies w1 = copies quiet + copies_of (InPlace (9::nat)) + size' v
             \<and> moves w1 = moves quiet + moves_of (InPlace (9::nat)))
       \<and> dtors w1 = dtors quiet + size' v \<and> (\<forall>i<size' v. subscript v1 i = subscript v i)" by blast
    from h have a: "\<forall>i<size' v. subscript v1 i = subscript v i" by blast
    from a[rule_format, of 0] sz sub have e0: "subscript v1 0 = Some 1" by simp
    from a[rule_format, of 1] sz sub have e1: "subscript v1 1 = Some 2" by simp
    from h m q0 sz ca have "moves w1 = 0 \<and> copies w1 = 2 \<and> dtors w1 = 2" by simp
    with e0 e1 have "moves w1 = 0 \<and> copies w1 = 2 \<and> dtors w1 = 2
         \<and> subscript v1 0 = Some 1 \<and> subscript v1 1 = Some 2" by simp
    with r show ?thesis by blast
  qed
  have one: "(1::nat) < size' v" "(1::nat) \<le> size' v" using sz by simp_all
  have c5: "\<exists>k v' w'. Emplace nothrow_type 1 (Outside (InPlace 9)) v quiet = Returns k (v', w')
         \<and> moves w' = 2 \<and> copies w' = 0 \<and> dtors w' = 2
         \<and> subscript v' 0 = Some 1 \<and> subscript v' 2 = Some 2"
  proof -
    from T[where tr = nothrow_type and a = "InPlace 9" and r = "Outside (InPlace 9)" and p = 1
        and w = quiet, THEN conjunct2, THEN conjunct2, THEN conjunct2, THEN conjunct2] q full one rf(1) obtain k1 v1 w1 where
      r: "Emplace nothrow_type 1 (Outside (InPlace 9)) v quiet = Returns k1 (v1, w1)" by blast
    from T[where tr = nothrow_type and a = "InPlace 9" and r = "Outside (InPlace 9)" and p = 1
        and w = quiet and k = k1 and v' = v1 and w' = w1, THEN conjunct2, THEN conjunct2, THEN conjunct1] r full one rf(1)
    have h: "(if moves_on_relocation nothrow_type
        then moves w1 = moves quiet + moves_of (InPlace (9::nat)) + size' v
             \<and> copies w1 = copies quiet + copies_of (InPlace (9::nat))
        else copies w1 = copies quiet + copies_of (InPlace (9::nat)) + size' v
             \<and> moves w1 = moves quiet + moves_of (InPlace (9::nat)))
       \<and> dtors w1 = dtors quiet + size' v
       \<and> (\<forall>i<1. subscript v1 i = subscript v i)
       \<and> (\<forall>i. 1 \<le> i \<and> i < size' v \<longrightarrow> subscript v1 (i + 1) = subscript v i)" by blast
    from h have a: "\<forall>i<1. subscript v1 i = subscript v i"
      and b: "\<forall>i. 1 \<le> i \<and> i < size' v \<longrightarrow> subscript v1 (i + 1) = subscript v i" by blast+
    from a sub have e0: "subscript v1 0 = Some 1" by simp
    from b[rule_format, of 1] sz sub have e2: "subscript v1 2 = Some 2" by (simp add: numeral_2_eq_2)
    from h m q0 sz ca have "moves w1 = 2 \<and> copies w1 = 0 \<and> dtors w1 = 2" by simp
    with e0 e2 have "moves w1 = 2 \<and> copies w1 = 0 \<and> dtors w1 = 2
         \<and> subscript v1 0 = Some 1 \<and> subscript v1 2 = Some 2" by simp
    with r show ?thesis by blast
  qed
  have c6: "\<exists>k v' w'. Emplace copyable_type 1 (OwnElement 0) v quiet = Returns k (v', w')
         \<and> moves w' = 0 \<and> copies w' = 3 \<and> dtors w' = 2
         \<and> subscript v' 0 = Some 1 \<and> subscript v' 2 = Some 2"
  proof -
    from T[where tr = copyable_type and a = "CopyOf 1" and r = "OwnElement 0" and p = 1
        and w = quiet, THEN conjunct2, THEN conjunct2, THEN conjunct2, THEN conjunct2] q full one rf(2) obtain k1 v1 w1 where
      r: "Emplace copyable_type 1 (OwnElement 0) v quiet = Returns k1 (v1, w1)" by blast
    from T[where tr = copyable_type and a = "CopyOf 1" and r = "OwnElement 0" and p = 1
        and w = quiet and k = k1 and v' = v1 and w' = w1, THEN conjunct2, THEN conjunct2, THEN conjunct1] r full one rf(2)
    have h: "(if moves_on_relocation copyable_type
        then moves w1 = moves quiet + moves_of (CopyOf (1::nat)) + size' v
             \<and> copies w1 = copies quiet + copies_of (CopyOf (1::nat))
        else copies w1 = copies quiet + copies_of (CopyOf (1::nat)) + size' v
             \<and> moves w1 = moves quiet + moves_of (CopyOf (1::nat)))
       \<and> dtors w1 = dtors quiet + size' v
       \<and> (\<forall>i<1. subscript v1 i = subscript v i)
       \<and> (\<forall>i. 1 \<le> i \<and> i < size' v \<longrightarrow> subscript v1 (i + 1) = subscript v i)" by blast
    from h have a: "\<forall>i<1. subscript v1 i = subscript v i"
      and b: "\<forall>i. 1 \<le> i \<and> i < size' v \<longrightarrow> subscript v1 (i + 1) = subscript v i" by blast+
    from a sub have e0: "subscript v1 0 = Some 1" by simp
    from b[rule_format, of 1] sz sub have e2: "subscript v1 2 = Some 2" by (simp add: numeral_2_eq_2)
    from h m q0 sz ca have "moves w1 = 0 \<and> copies w1 = 3 \<and> dtors w1 = 2" by simp
    with e0 e2 have "moves w1 = 0 \<and> copies w1 = 3 \<and> dtors w1 = 2
         \<and> subscript v1 0 = Some 1 \<and> subscript v1 2 = Some 2" by simp
    with r show ?thesis by blast
  qed
  have c7: "\<exists>e w'. Reserve copyable_type 4 v (failing_after 1) = Throws e (v, w')"
  proof -
    have "throws (Reserve copyable_type 4 (vec [1, 2] 2) (failing_after 1))" by code_simp
    then obtain e1 v1 w1 where
      r: "Reserve copyable_type 4 v (failing_after 1) = Throws e1 (v1, w1)"
      by (auto simp: v_def throws_def split: outcome.splits)
    from T[where tr = copyable_type and n = 4 and w = "failing_after 1" and e = e1 and v' = v1
        and w' = w1, THEN conjunct2, THEN conjunct2, THEN conjunct2, THEN conjunct1] r m(2)
    have "v1 = v" by blast
    with r show ?thesis by blast
  qed
  have c8: "\<exists>e w'. EmplaceBack copyable_type (InPlace 9) v (failing_after 2) = Throws e (v, w')"
  proof -
    have "throws (EmplaceBack copyable_type (InPlace 9) (vec [1, 2] 2) (failing_after 2))" by code_simp
    then obtain e1 v1 w1 where
      r: "EmplaceBack copyable_type (InPlace 9) v (failing_after 2) = Throws e1 (v1, w1)"
      by (auto simp: v_def throws_def split: outcome.splits)
    from T[where tr = copyable_type and a = "InPlace 9" and w = "failing_after 2" and e = e1
        and v' = v1 and w' = w1, THEN conjunct2, THEN conjunct2, THEN conjunct2, THEN conjunct1] r m(2)
    have "v1 = v" by blast
    with r show ?thesis by blast
  qed
  have c9: "\<exists>e w'. Emplace copyable_type 1 (Outside (InPlace 9)) v (failing_after 2) = Throws e (v, w')"
  proof -
    have "throws (Emplace copyable_type 1 (Outside (InPlace 9)) (vec [1, 2] 2) (failing_after 2))"
      by code_simp
    then obtain e1 v1 w1 where
      r: "Emplace copyable_type 1 (Outside (InPlace 9)) v (failing_after 2) = Throws e1 (v1, w1)"
      by (auto simp: v_def throws_def split: outcome.splits)
    from T[where tr = copyable_type and r = "Outside (InPlace 9)" and p = 1 and w = "failing_after 2"
        and e = e1 and v' = v1 and w' = w1, THEN conjunct2, THEN conjunct2, THEN conjunct2, THEN conjunct1] r m(2) full
    have "v1 = v" by blast
    with r show ?thesis by blast
  qed
  from i m c1 c2 c3 c4 c5 c6 c7 c8 c9
  have "invariant v \<and> moves_on_relocation nothrow_type \<and> \<not> moves_on_relocation copyable_type
   \<and> (\<exists>v' w'. Reserve nothrow_type 4 v quiet = Returns () (v', w')
         \<and> moves w' = 2 \<and> copies w' = 0 \<and> dtors w' = 2 \<and> elements v' = [Some 1, Some 2])
   \<and> (\<exists>v' w'. Reserve copyable_type 4 v quiet = Returns () (v', w')
         \<and> moves w' = 0 \<and> copies w' = 2 \<and> dtors w' = 2 \<and> elements v' = [Some 1, Some 2])
   \<and> (\<exists>k v' w'. EmplaceBack nothrow_type (InPlace 9) v quiet = Returns k (v', w')
         \<and> moves w' = 2 \<and> copies w' = 0 \<and> dtors w' = 2
         \<and> subscript v' 0 = Some 1 \<and> subscript v' 1 = Some 2)
   \<and> (\<exists>k v' w'. EmplaceBack copyable_type (InPlace 9) v quiet = Returns k (v', w')
         \<and> moves w' = 0 \<and> copies w' = 2 \<and> dtors w' = 2
         \<and> subscript v' 0 = Some 1 \<and> subscript v' 1 = Some 2)
   \<and> (\<exists>k v' w'. Emplace nothrow_type 1 (Outside (InPlace 9)) v quiet = Returns k (v', w')
         \<and> moves w' = 2 \<and> copies w' = 0 \<and> dtors w' = 2
         \<and> subscript v' 0 = Some 1 \<and> subscript v' 2 = Some 2)
   \<and> (\<exists>k v' w'. Emplace copyable_type 1 (OwnElement 0) v quiet = Returns k (v', w')
         \<and> moves w' = 0 \<and> copies w' = 3 \<and> dtors w' = 2
         \<and> subscript v' 0 = Some 1 \<and> subscript v' 2 = Some 2)
   \<and> (\<exists>e w'. Reserve copyable_type 4 v (failing_after 1) = Throws e (v, w'))
   \<and> (\<exists>e w'. EmplaceBack copyable_type (InPlace 9) v (failing_after 2) = Throws e (v, w'))
   \<and> (\<exists>e w'. Emplace copyable_type 1 (Outside (InPlace 9)) v (failing_after 2) = Throws e (v, w'))"
    by (intro conjI)
  then show ?thesis unfolding v_def .
qed

text \<open>
  Claim C8, at the input where the code breaks it. The container \<open>[1]\<close> with capacity 2
  satisfies the invariant. \<open>Insert(begin(), value)\<close> takes the in-place path: it
  move-constructs the last element into slot 1, and then the copy construction of the
  temporary \<open>T(value)\<close> throws. The call leaves \<open>size_ = 1\<close> with a live object in
  slot 1, so the slots from \<open>size_\<close> on are no longer raw memory: the invariant does
  not hold after the call. A later append constructs over that object, and the destructor
  of the container never destroys it.
\<close>

theorem in_place_insert_failure_breaks_invariant:
  "invariant (vec [1::nat] 2)
   \<and> Insert_copy nothrow_type 0 9 (vec [1] 2) (failing_after 0)
       = Throws ElementOperationFailure
           (\<lparr>data' = \<lparr>buffer' = [Live 0, Live 1], capacity' = 2\<rparr>, size' = 1\<rparr>, quiet\<lparr>moves := 1\<rparr>)
   \<and> \<not> invariant \<lparr>data' = \<lparr>buffer' = [Live (0::nat), Live 1], capacity' = 2\<rparr>, size' = 1\<rparr>"
  by code_simp

end
